theory Spec2Isabelle
  imports Main "HOL-Library.Sublist"
begin

section \<open>The filesystem\<close>

text \<open>
  The program works on the filesystem through \<^verbatim>\<open>os\<close>, \<^verbatim>\<open>os.path\<close>, \<^verbatim>\<open>shutil\<close>
  and \<^verbatim>\<open>open\<close>. A path is the list of its components below the filesystem root; the
  component \<^verbatim>\<open>.\<close> occurs only as the last one of a path (see \<open>os_path_join\<close>). The
  filesystem is an association list from paths to entries, in directory order (the order
  \<^verbatim>\<open>os.scandir\<close> reports). A regular file carries its bytes and its modification
  time; the log file is one of the regular files. Symbolic links, special files,
  permissions and access times are not modelled.
\<close>

type_synonym name = string
type_synonym path = "name list"
type_synonym bytes = string

datatype entry = File bytes nat | Dir

type_synonym filesystem = "(path \<times> entry) list"

datatype error =
  FileNotFoundError | FileExistsError | NotADirectoryError | IsADirectoryError | SameFileError
  | ValueError | OverflowError

text \<open>
  A filesystem is well formed when no path is listed twice, the root is a directory, the
  parent of every entry is a directory and no entry is named \<^verbatim>\<open>.\<close>.
\<close>

definition plain :: "path \<Rightarrow> bool" where
  "plain p \<longleftrightarrow> ''.'' \<notin> set p"

definition wf_fs :: "filesystem \<Rightarrow> bool" where
  "wf_fs fs \<longleftrightarrow>
     distinct (map fst fs) \<and> map_of fs [] = Some Dir \<and>
     (\<forall>(p, e) \<in> set fs. plain p \<and> (p \<noteq> [] \<longrightarrow> map_of fs (butlast p) = Some Dir))"

primrec depth :: "filesystem \<Rightarrow> nat" where
  "depth [] = 0"
| "depth (x # xs) = max (length (fst x)) (depth xs)"

text \<open>
  A path that ends in \<^verbatim>\<open>.\<close> names the directory before it: the operating system
  resolves it only when that is a directory. \<open>dotted p\<close> says that \<open>p\<close> ends so.
\<close>

definition dotted :: "path \<Rightarrow> bool" where
  "dotted p \<longleftrightarrow> p \<noteq> [] \<and> last p = ''.''"

definition os_path_exists :: "filesystem \<Rightarrow> path \<Rightarrow> bool" where
  "os_path_exists fs p \<longleftrightarrow>
     (if dotted p then map_of fs (butlast p) = Some Dir else map_of fs p \<noteq> None)"

definition os_path_isdir :: "filesystem \<Rightarrow> path \<Rightarrow> bool" where
  "os_path_isdir fs p \<longleftrightarrow> map_of fs (if dotted p then butlast p else p) = Some Dir"

text \<open>
  \<^verbatim>\<open>os.path.join(a, b)\<close> with \<open>b\<close> relative. The source joins a name to
  \<^verbatim>\<open>replica/.\<close> and gets \<^verbatim>\<open>replica/./name\<close>, which the operating system resolves as
  \<^verbatim>\<open>replica/name\<close>; the model drops that inner \<^verbatim>\<open>.\<close> at the join.
  \<^verbatim>\<open>os.path.relpath(p, start)\<close> is taken for a path \<open>p\<close> at or below \<open>start\<close> (every
  path \<^verbatim>\<open>os.walk(start)\<close> yields is); it is \<^verbatim>\<open>.\<close> for \<open>start\<close> itself.
\<close>

definition os_path_join :: "path \<Rightarrow> path \<Rightarrow> path" where
  "os_path_join a b = (if dotted a \<and> b \<noteq> [] then butlast a @ b else a @ b)"

definition os_path_relpath :: "path \<Rightarrow> path \<Rightarrow> path" where
  "os_path_relpath p start = (if p = start then [''.''] else drop (length start) p)"

text \<open>
  \<^verbatim>\<open>os.mkdir\<close>: the path must be new and its parent a directory. For a path that ends
  in \<^verbatim>\<open>.\<close> the call fails in every case: the directory before it exists already, is
  not a directory, or is missing.
\<close>

definition os_mkdir :: "filesystem \<Rightarrow> path \<Rightarrow> error + filesystem" where
  "os_mkdir fs p =
     (if dotted p then
        (case map_of fs (butlast p) of
           None \<Rightarrow> Inl FileNotFoundError
         | Some (File c m) \<Rightarrow> Inl NotADirectoryError
         | Some Dir \<Rightarrow> Inl FileExistsError)
      else if map_of fs p \<noteq> None \<or> p = [] then Inl FileExistsError
      else case map_of fs (butlast p) of
             None \<Rightarrow> Inl FileNotFoundError
           | Some (File c m) \<Rightarrow> Inl NotADirectoryError
           | Some Dir \<Rightarrow> Inr (fs @ [(p, Dir)]))"

text \<open>
  \<^verbatim>\<open>os.makedirs(name)\<close> with \<^verbatim>\<open>exist_ok=False\<close>: when the parent does not exist it is
  made first (a \<^verbatim>\<open>FileExistsError\<close> of that call is passed over) and, when the last
  component is \<^verbatim>\<open>.\<close>, the call returns; otherwise the leaf is made with
  \<^verbatim>\<open>os.mkdir\<close>.
\<close>

function os_makedirs :: "filesystem \<Rightarrow> path \<Rightarrow> error + filesystem" where
  "os_makedirs fs p =
     (if p \<noteq> [] \<and> \<not> os_path_exists fs (butlast p) then
        (case os_makedirs fs (butlast p) of
           Inl e \<Rightarrow>
             (if e = FileExistsError then (if dotted p then Inr fs else os_mkdir fs p) else Inl e)
         | Inr fs' \<Rightarrow> (if dotted p then Inr fs' else os_mkdir fs' p))
      else os_mkdir fs p)"
  by pat_completeness auto
termination
  by (relation "measure (\<lambda>(fs, p). length p)") auto

text \<open>\<^verbatim>\<open>os.remove\<close> unlinks a regular file.\<close>

definition os_remove :: "filesystem \<Rightarrow> path \<Rightarrow> error + filesystem" where
  "os_remove fs p =
     (case map_of fs p of
        None \<Rightarrow> Inl FileNotFoundError
      | Some Dir \<Rightarrow> Inl IsADirectoryError
      | Some (File c m) \<Rightarrow> Inr (filter (\<lambda>(q, e). q \<noteq> p) fs))"

text \<open>\<^verbatim>\<open>shutil.rmtree\<close> removes a directory with everything below it.\<close>

definition shutil_rmtree :: "filesystem \<Rightarrow> path \<Rightarrow> error + filesystem" where
  "shutil_rmtree fs p =
     (case map_of fs p of
        None \<Rightarrow> Inl FileNotFoundError
      | Some (File c m) \<Rightarrow> Inl NotADirectoryError
      | Some Dir \<Rightarrow> Inr (filter (\<lambda>(q, e). \<not> prefix p q) fs))"

text \<open>Writing a file: an existing entry is replaced in place, a new one is appended.\<close>

fun write_file :: "filesystem \<Rightarrow> path \<Rightarrow> entry \<Rightarrow> filesystem" where
  "write_file [] p v = [(p, v)]"
| "write_file ((q, e) # fs) p v = (if q = p then (p, v) # fs else (q, e) # write_file fs p v)"

text \<open>
  \<^verbatim>\<open>shutil.copy2(src, dst)\<close>: a destination that is a directory stands for the file of
  the source's name inside it; source and destination must differ; the source is opened
  for reading, the destination for writing (created or truncated), and the bytes and the
  modification time are copied.
\<close>

definition shutil_copy2 :: "filesystem \<Rightarrow> path \<Rightarrow> path \<Rightarrow> error + filesystem" where
  "shutil_copy2 fs src dst =
     (let dst' = (if os_path_isdir fs dst then os_path_join dst [last src] else dst) in
      if os_path_exists fs src \<and> src = dst' then Inl SameFileError
      else case map_of fs src of
             None \<Rightarrow> Inl FileNotFoundError
           | Some Dir \<Rightarrow> Inl IsADirectoryError
           | Some (File c m) \<Rightarrow>
               (if os_path_isdir fs dst' then Inl IsADirectoryError
                else case map_of fs (butlast dst') of
                       None \<Rightarrow> Inl FileNotFoundError
                     | Some (File c' m') \<Rightarrow> Inl NotADirectoryError
                     | Some Dir \<Rightarrow> Inr (write_file fs dst' (File c m))))"

text \<open>
  \<^verbatim>\<open>os.scandir\<close> as \<^verbatim>\<open>os.walk\<close> uses it: the names of the subdirectories and of the
  other entries of a directory, or nothing when the path is not a directory.
\<close>

definition scandir :: "filesystem \<Rightarrow> path \<Rightarrow> (name list \<times> name list) option" where
  "scandir fs top_path =
     (let d = (if dotted top_path then butlast top_path else top_path) in
      if map_of fs d = Some Dir then
        Some (map (last \<circ> fst) (filter (\<lambda>(p, e). p \<noteq> [] \<and> butlast p = d \<and> e = Dir) fs),
              map (last \<circ> fst) (filter (\<lambda>(p, e). p \<noteq> [] \<and> butlast p = d \<and> e \<noteq> Dir) fs))
      else None)"

text \<open>
  \<^verbatim>\<open>open(path, "a")\<close> followed by one \<^verbatim>\<open>write\<close>: the text is appended to the regular
  file at the path, which is created when it is missing and its parent is a directory;
  the file gets the time of the write as its modification time.
\<close>

definition open_append :: "filesystem \<Rightarrow> path \<Rightarrow> bytes \<Rightarrow> nat \<Rightarrow> error + filesystem" where
  "open_append fs p text now =
     (case map_of fs p of
        Some Dir \<Rightarrow> Inl IsADirectoryError
      | Some (File c m) \<Rightarrow> Inr (write_file fs p (File (c @ text) now))
      | None \<Rightarrow>
          (case map_of fs (butlast p) of
             None \<Rightarrow> Inl FileNotFoundError
           | Some (File c m) \<Rightarrow> Inl NotADirectoryError
           | Some Dir \<Rightarrow> Inr (write_file fs p (File text now))))"

section \<open>The content hasher\<close>

text \<open>
  \<^verbatim>\<open>hashlib.md5\<close> is a library object: a fresh state, \<^verbatim>\<open>update\<close> and \<^verbatim>\<open>hexdigest\<close>.
  It is a parameter of the model.
\<close>

record 'h md5 =
  md5_new :: 'h
  md5_update :: "'h \<Rightarrow> bytes \<Rightarrow> 'h"
  md5_hexdigest :: "'h \<Rightarrow> string"

text \<open>
  \<^verbatim>\<open>iter(lambda: f.read(4096), b"")\<close>: the chunks read until the first empty one.
\<close>

function read_chunks :: "nat \<Rightarrow> bytes \<Rightarrow> bytes list" where
  "read_chunks k bs = (if take k bs = [] then [] else take k bs # read_chunks k (drop k bs))"
  by pat_completeness auto
termination
  by (relation "measure (\<lambda>(k, bs). length bs)") auto

definition hash_bytes :: "'h md5 \<Rightarrow> bytes \<Rightarrow> string" where
  "hash_bytes h bs = md5_hexdigest h (foldl (md5_update h) (md5_new h) (read_chunks 4096 bs))"

definition calculate_hash :: "'h md5 \<Rightarrow> filesystem \<Rightarrow> path \<Rightarrow> error + string" where
  "calculate_hash h fs file_path =
     (case map_of fs file_path of
        None \<Rightarrow> Inl FileNotFoundError
      | Some Dir \<Rightarrow> Inl IsADirectoryError
      | Some (File c m) \<Rightarrow> Inr (hash_bytes h c))"

section \<open>Program state and logging\<close>

text \<open>
  The messages the program prints, and their text. The timestamp \<^verbatim>\<open>log_message\<close> puts
  in front of a line and the pictograph at the start of a message are left out of the
  text.
\<close>

datatype message =
    CreatedReplica path
  | CreatedFolder path
  | CopiedFile path path
  | RemovedFile path
  | RemovedFolder path
  | SourceMissing path
  | Starting
  | SourceFolder path
  | ReplicaFolder path
  | Interval int
  | LogFile path
  | Completed

definition show_path :: "path \<Rightarrow> string" where
  "show_path p = (if p = [] then ''/'' else concat (map (\<lambda>x. ''/'' @ x) p))"

function show_nat :: "nat \<Rightarrow> string" where
  "show_nat n = (if n < 10 then [char_of (48 + n)]
                 else show_nat (n div 10) @ [char_of (48 + n mod 10)])"
  by pat_completeness auto
termination
  by (relation "measure id") auto

definition show_int :: "int \<Rightarrow> string" where
  "show_int i = (if i < 0 then ''-'' @ show_nat (nat (- i)) else show_nat (nat i))"

primrec render :: "message \<Rightarrow> string" where
  "render (CreatedReplica p) = ''Created replica folder: '' @ show_path p"
| "render (CreatedFolder p) = ''Created folder: '' @ show_path p"
| "render (CopiedFile p q) = ''Copied file: '' @ show_path p @ '' -> '' @ show_path q"
| "render (RemovedFile p) = ''Removed file: '' @ show_path p"
| "render (RemovedFolder p) = ''Removed folder: '' @ show_path p"
| "render (SourceMissing p) = ''Error: Source folder '' @ show_path p @ '' does not exist.''"
| "render Starting = ''Starting folder synchronizer...''"
| "render (SourceFolder p) = ''Source folder: '' @ show_path p"
| "render (ReplicaFolder p) = ''Replica folder: '' @ show_path p"
| "render (Interval i) = ''Interval: '' @ show_int i @ '' seconds''"
| "render (LogFile p) = ''Log file: '' @ show_path p"
| "render Completed = ''Synchronization completed.''"

text \<open>
  The state is the filesystem, the lines printed on the console and the system clock
  (in seconds), which the model lets advance only in \<^verbatim>\<open>time.sleep\<close>.
\<close>

record state =
  files :: filesystem
  console :: "message list"
  clock :: nat

text \<open>
  A statement runs on a state and leaves a state, with the exception it raised, if any.
\<close>

type_synonym outcome = "error option \<times> state"
type_synonym prog = "state \<Rightarrow> outcome"

definition print :: "message \<Rightarrow> prog" where
  "print msg s = (None, s\<lparr>console := console s @ [msg]\<rparr>)"

definition fs_op :: "(filesystem \<Rightarrow> error + filesystem) \<Rightarrow> prog" where
  "fs_op f s = (case f (files s) of Inl e \<Rightarrow> (Some e, s) | Inr fs' \<Rightarrow> (None, s\<lparr>files := fs'\<rparr>))"

definition seq :: "prog \<Rightarrow> prog \<Rightarrow> prog" where
  "seq p q s = (case p s of (None, s') \<Rightarrow> q s' | (Some e, s') \<Rightarrow> (Some e, s'))"

fun for_each :: "('a \<Rightarrow> prog) \<Rightarrow> 'a list \<Rightarrow> prog" where
  "for_each body [] s = (None, s)"
| "for_each body (x # xs) s =
     (case body x s of (None, s') \<Rightarrow> for_each body xs s' | (Some e, s') \<Rightarrow> (Some e, s'))"

text \<open>
  \<^verbatim>\<open>log_message(log_path, message)\<close>: the line is printed, then appended to the log
  file, which is a file of the filesystem.
\<close>

definition log_message :: "path \<Rightarrow> message \<Rightarrow> prog" where
  "log_message log_path msg =
     seq (print msg)
         (\<lambda>s. fs_op (\<lambda>fs. open_append fs log_path (render msg @ [CHR 0x0A]) (clock s)) s)"

text \<open>
  \<^verbatim>\<open>time.sleep(secs)\<close> for an integer: the seconds are converted to a signed 64-bit count
  of nanoseconds, which overflows beyond 9223372036 seconds; a negative length is refused.
\<close>

definition time_sleep :: "int \<Rightarrow> prog" where
  "time_sleep secs s =
     (if secs < - 9223372036 \<or> 9223372036 < secs then (Some OverflowError, s)
      else if secs < 0 then (Some ValueError, s)
      else (None, s\<lparr>clock := clock s + nat secs\<rparr>))"

section \<open>Walking a tree\<close>

text \<open>
  \<^verbatim>\<open>for root, dirs, files in os.walk(top, topdown)\<close> with the loop body as a parameter.
  The generator is lazy: a directory is scanned when the walk reaches it, in the state
  the loop bodies run so far have left. A path that is not a directory yields nothing
  (\<^verbatim>\<open>onerror\<close> is not set). Top-down, the triple of a directory is yielded before its
  subdirectories are walked; bottom-up, after them, with the names scanned before.
  The first argument bounds the nesting of directories: the walk returns \<open>None\<close> when
  it meets a directory deeper than that.
\<close>

fun os_walk :: "nat \<Rightarrow> bool \<Rightarrow> (path \<times> name list \<times> name list \<Rightarrow> prog) \<Rightarrow> path \<Rightarrow> state
                  \<Rightarrow> outcome option"
and os_walk_dirs :: "nat \<Rightarrow> bool \<Rightarrow> (path \<times> name list \<times> name list \<Rightarrow> prog) \<Rightarrow> path \<Rightarrow>
                  name list \<Rightarrow> state \<Rightarrow> outcome option"
where
  "os_walk 0 topdown body top_path s =
     (case scandir (files s) top_path of None \<Rightarrow> Some (None, s) | Some (dirs, nondirs) \<Rightarrow> None)"
| "os_walk (Suc n) topdown body top_path s =
     (case scandir (files s) top_path of
        None \<Rightarrow> Some (None, s)
      | Some (dirs, nondirs) \<Rightarrow>
          (if topdown then
             (case body (top_path, dirs, nondirs) s of
                (Some e, s1) \<Rightarrow> Some (Some e, s1)
              | (None, s1) \<Rightarrow> os_walk_dirs n topdown body top_path dirs s1)
           else
             (case os_walk_dirs n topdown body top_path dirs s of
                None \<Rightarrow> None
              | Some (Some e, s1) \<Rightarrow> Some (Some e, s1)
              | Some (None, s1) \<Rightarrow> Some (body (top_path, dirs, nondirs) s1))))"
| "os_walk_dirs n topdown body top_path [] s = Some (None, s)"
| "os_walk_dirs n topdown body top_path (d # ds) s =
     (case os_walk n topdown body (os_path_join top_path [d]) s of
        None \<Rightarrow> None
      | Some (Some e, s1) \<Rightarrow> Some (Some e, s1)
      | Some (None, s1) \<Rightarrow> os_walk_dirs n topdown body top_path ds s1)"

section \<open>The synchronizer\<close>

text \<open>Lines 27 to 29: the replica folder is made when nothing is at its path.\<close>

definition ensure_replica :: "path \<Rightarrow> path \<Rightarrow> prog" where
  "ensure_replica replica log_path s =
     (if \<not> os_path_exists (files s) replica then
        seq (fs_op (\<lambda>fs. os_makedirs fs replica)) (log_message log_path (CreatedReplica replica)) s
      else (None, s))"

text \<open>Lines 36 to 38: the folder of the replica that stands for a folder of the source.\<close>

definition ensure_folder :: "path \<Rightarrow> path \<Rightarrow> prog" where
  "ensure_folder destination_path log_path s =
     (if \<not> os_path_exists (files s) destination_path then
        seq (fs_op (\<lambda>fs. os_makedirs fs destination_path))
            (log_message log_path (CreatedFolder destination_path)) s
      else (None, s))"

text \<open>Lines 41 to 47: one file of the source.\<close>

definition copy_and_log :: "path \<Rightarrow> path \<Rightarrow> path \<Rightarrow> prog" where
  "copy_and_log log_path source_file replica_file =
     seq (fs_op (\<lambda>fs. shutil_copy2 fs source_file replica_file))
         (log_message log_path (CopiedFile source_file replica_file))"

definition sync_file :: "'h md5 \<Rightarrow> path \<Rightarrow> path \<Rightarrow> path \<Rightarrow> name \<Rightarrow> prog" where
  "sync_file h log_path root destination_path file s =
     (let source_file = os_path_join root [file];
          replica_file = os_path_join destination_path [file] in
      if \<not> os_path_exists (files s) replica_file then
        copy_and_log log_path source_file replica_file s
      else case calculate_hash h (files s) source_file of
             Inl e \<Rightarrow> (Some e, s)
           | Inr hs \<Rightarrow>
               (case calculate_hash h (files s) replica_file of
                  Inl e \<Rightarrow> (Some e, s)
                | Inr hr \<Rightarrow>
                    if hs \<noteq> hr then copy_and_log log_path source_file replica_file s
                    else (None, s)))"

text \<open>Lines 33 to 47: the body of the loop over the source.\<close>

definition forward_body ::
  "'h md5 \<Rightarrow> path \<Rightarrow> path \<Rightarrow> path \<Rightarrow> path \<times> name list \<times> name list \<Rightarrow> prog" where
  "forward_body h source replica log_path = (\<lambda>(root, dirs, fnames).
     let relative_path = os_path_relpath root source;
         destination_path = os_path_join replica relative_path in
     seq (ensure_folder destination_path log_path)
         (for_each (sync_file h log_path root destination_path) fnames))"

text \<open>Lines 54 to 60 and 62 to 68: one file and one folder of the replica.\<close>

definition prune_file :: "path \<Rightarrow> path \<Rightarrow> path \<Rightarrow> name \<Rightarrow> prog" where
  "prune_file log_path root source_path file s =
     (let replica_file = os_path_join root [file];
          source_file = os_path_join source_path [file] in
      if \<not> os_path_exists (files s) source_file then
        seq (fs_op (\<lambda>fs. os_remove fs replica_file))
            (log_message log_path (RemovedFile replica_file)) s
      else (None, s))"

definition prune_folder :: "path \<Rightarrow> path \<Rightarrow> path \<Rightarrow> name \<Rightarrow> prog" where
  "prune_folder log_path root source_path folder s =
     (let replica_folder = os_path_join root [folder];
          source_folder = os_path_join source_path [folder] in
      if \<not> os_path_exists (files s) source_folder then
        seq (fs_op (\<lambda>fs. shutil_rmtree fs replica_folder))
            (log_message log_path (RemovedFolder replica_folder)) s
      else (None, s))"

text \<open>Lines 51 to 68: the body of the loop over the replica.\<close>

definition reverse_body :: "path \<Rightarrow> path \<Rightarrow> path \<Rightarrow> path \<times> name list \<times> name list \<Rightarrow> prog" where
  "reverse_body source replica log_path = (\<lambda>(root, dirs, fnames).
     let relative_path = os_path_relpath root replica;
         source_path = os_path_join source relative_path in
     seq (for_each (prune_file log_path root source_path) fnames)
         (for_each (prune_folder log_path root source_path) dirs))"

definition forward_pass ::
  "nat \<Rightarrow> 'h md5 \<Rightarrow> path \<Rightarrow> path \<Rightarrow> path \<Rightarrow> state \<Rightarrow> outcome option" where
  "forward_pass n h source replica log_path =
     os_walk n True (forward_body h source replica log_path) source"

definition reverse_pass :: "nat \<Rightarrow> path \<Rightarrow> path \<Rightarrow> path \<Rightarrow> state \<Rightarrow> outcome option" where
  "reverse_pass n source replica log_path =
     os_walk n False (reverse_body source replica log_path) replica"

text \<open>
  \<^verbatim>\<open>synchronize_folders(source, replica, log_path)\<close>; \<open>n\<close> bounds the nesting of
  directories in both walks.
\<close>

definition synchronize_folders ::
  "nat \<Rightarrow> 'h md5 \<Rightarrow> path \<Rightarrow> path \<Rightarrow> path \<Rightarrow> state \<Rightarrow> outcome option" where
  "synchronize_folders n h source replica log_path s =
     (case ensure_replica replica log_path s of
        (Some e, s1) \<Rightarrow> Some (Some e, s1)
      | (None, s1) \<Rightarrow>
          (case forward_pass n h source replica log_path s1 of
             None \<Rightarrow> None
           | Some (Some e, s2) \<Rightarrow> Some (Some e, s2)
           | Some (None, s2) \<Rightarrow> reverse_pass n source replica log_path s2))"

section \<open>The command line program\<close>

text \<open>
  \<^verbatim>\<open>main\<close> after the arguments are parsed. The loop \<^verbatim>\<open>while True\<close> never ends by
  itself: the model runs its first \<open>k\<close> iterations and says how the process stands
  then. No statement of \<^verbatim>\<open>main\<close> is inside a \<^verbatim>\<open>try\<close>: an exception ends the process.
\<close>

datatype status = Returned | Raised error | Looping

fun main_loop ::
  "nat \<Rightarrow> nat \<Rightarrow> 'h md5 \<Rightarrow> path \<Rightarrow> path \<Rightarrow> int \<Rightarrow> path \<Rightarrow> state \<Rightarrow> (status \<times> state) option" where
  "main_loop 0 n h source replica interval log_path s = Some (Looping, s)"
| "main_loop (Suc k) n h source replica interval log_path s =
     (case synchronize_folders n h source replica log_path s of
        None \<Rightarrow> None
      | Some (Some e, s1) \<Rightarrow> Some (Raised e, s1)
      | Some (None, s1) \<Rightarrow>
          (case seq (log_message log_path Completed) (time_sleep interval) s1 of
             (Some e, s2) \<Rightarrow> Some (Raised e, s2)
           | (None, s2) \<Rightarrow> main_loop k n h source replica interval log_path s2))"

definition main :: "nat \<Rightarrow> nat \<Rightarrow> 'h md5 \<Rightarrow> path \<Rightarrow> path \<Rightarrow> int \<Rightarrow> path \<Rightarrow> state
                      \<Rightarrow> (status \<times> state) option" where
  "main k n h source replica interval log_path s =
     (if \<not> os_path_exists (files s) source then
        Some (Returned, snd (print (SourceMissing source) s))
      else
        (case for_each (log_message log_path)
                [Starting, SourceFolder source, ReplicaFolder replica, Interval interval,
                 LogFile log_path] s of
           (Some e, s1) \<Rightarrow> Some (Raised e, s1)
         | (None, s1) \<Rightarrow> main_loop k n h source replica interval log_path s1))"

section \<open>Reaching a statement\<close>

text \<open>
  \<open>visits n topdown body top s t st\<close>: the walk from \<open>top\<close> that starts in the state \<open>s\<close>
  comes to run the loop body on the triple \<open>t\<close>, in the state \<open>st\<close>; every loop body
  before it has ended without an exception.
\<close>

inductive visits :: "nat \<Rightarrow> bool \<Rightarrow> (path \<times> name list \<times> name list \<Rightarrow> prog) \<Rightarrow> path \<Rightarrow> state
                       \<Rightarrow> path \<times> name list \<times> name list \<Rightarrow> state \<Rightarrow> bool"
and visits_dirs :: "nat \<Rightarrow> bool \<Rightarrow> (path \<times> name list \<times> name list \<Rightarrow> prog) \<Rightarrow> path \<Rightarrow>
                       name list \<Rightarrow> state \<Rightarrow> path \<times> name list \<times> name list \<Rightarrow> state \<Rightarrow> bool"
where
  top_down_here:
    "scandir (files s) top_path = Some (dirs, nondirs) \<Longrightarrow>
     visits (Suc n) True body top_path s (top_path, dirs, nondirs) s"
| top_down_below:
    "scandir (files s) top_path = Some (dirs, nondirs) \<Longrightarrow>
     body (top_path, dirs, nondirs) s = (None, s1) \<Longrightarrow>
     visits_dirs n True body top_path dirs s1 t st \<Longrightarrow>
     visits (Suc n) True body top_path s t st"
| bottom_up_below:
    "scandir (files s) top_path = Some (dirs, nondirs) \<Longrightarrow>
     visits_dirs n False body top_path dirs s t st \<Longrightarrow>
     visits (Suc n) False body top_path s t st"
| bottom_up_here:
    "scandir (files s) top_path = Some (dirs, nondirs) \<Longrightarrow>
     os_walk_dirs n False body top_path dirs s = Some (None, s1) \<Longrightarrow>
     visits (Suc n) False body top_path s (top_path, dirs, nondirs) s1"
| first_dir:
    "visits n topdown body (os_path_join top_path [d]) s t st \<Longrightarrow>
     visits_dirs n topdown body top_path (d # ds) s t st"
| later_dir:
    "os_walk n topdown body (os_path_join top_path [d]) s = Some (None, s1) \<Longrightarrow>
     visits_dirs n topdown body top_path ds s1 t st \<Longrightarrow>
     visits_dirs n topdown body top_path (d # ds) s t st"

text \<open>
  \<open>raised_in_pass n h source replica log_path s e s'\<close>: in the pass that starts in the
  state \<open>s\<close>, the statements for one entry raise the exception \<open>e\<close> and leave the state
  \<open>s'\<close>. The entry is the replica folder (lines 27 to 29), the folder of the replica for
  a directory the forward walk has come to (lines 36 to 38), a file of such a directory
  (lines 41 to 47), or a file (lines 55 to 60) or a folder (lines 63 to 68) of a
  directory the reverse walk has come to; everything before the entry has run without
  an exception.
\<close>

inductive raised_in_pass ::
  "nat \<Rightarrow> 'h md5 \<Rightarrow> path \<Rightarrow> path \<Rightarrow> path \<Rightarrow> state \<Rightarrow> error \<Rightarrow> state \<Rightarrow> bool"
  for n h source replica log_path s
where
  at_replica:
    "ensure_replica replica log_path s = (Some e, s') \<Longrightarrow>
     raised_in_pass n h source replica log_path s e s'"
| at_folder:
    "ensure_replica replica log_path s = (None, s1) \<Longrightarrow>
     visits n True (forward_body h source replica log_path) source s1 (root, dirs, fnames) s2 \<Longrightarrow>
     ensure_folder (os_path_join replica (os_path_relpath root source)) log_path s2 = (Some e, s') \<Longrightarrow>
     raised_in_pass n h source replica log_path s e s'"
| at_file:
    "ensure_replica replica log_path s = (None, s1) \<Longrightarrow>
     visits n True (forward_body h source replica log_path) source s1 (root, dirs, fnames) s2 \<Longrightarrow>
     destination_path = os_path_join replica (os_path_relpath root source) \<Longrightarrow>
     ensure_folder destination_path log_path s2 = (None, s3) \<Longrightarrow>
     fnames = before @ file # after \<Longrightarrow>
     for_each (sync_file h log_path root destination_path) before s3 = (None, s4) \<Longrightarrow>
     sync_file h log_path root destination_path file s4 = (Some e, s') \<Longrightarrow>
     raised_in_pass n h source replica log_path s e s'"
| at_replica_file:
    "ensure_replica replica log_path s = (None, s1) \<Longrightarrow>
     forward_pass n h source replica log_path s1 = Some (None, s2) \<Longrightarrow>
     visits n False (reverse_body source replica log_path) replica s2 (root, dirs, fnames) s3 \<Longrightarrow>
     source_path = os_path_join source (os_path_relpath root replica) \<Longrightarrow>
     fnames = before @ file # after \<Longrightarrow>
     for_each (prune_file log_path root source_path) before s3 = (None, s4) \<Longrightarrow>
     prune_file log_path root source_path file s4 = (Some e, s') \<Longrightarrow>
     raised_in_pass n h source replica log_path s e s'"
| at_replica_folder:
    "ensure_replica replica log_path s = (None, s1) \<Longrightarrow>
     forward_pass n h source replica log_path s1 = Some (None, s2) \<Longrightarrow>
     visits n False (reverse_body source replica log_path) replica s2 (root, dirs, fnames) s3 \<Longrightarrow>
     source_path = os_path_join source (os_path_relpath root replica) \<Longrightarrow>
     for_each (prune_file log_path root source_path) fnames s3 = (None, s4) \<Longrightarrow>
     dirs = before @ folder # after \<Longrightarrow>
     for_each (prune_folder log_path root source_path) before s4 = (None, s5) \<Longrightarrow>
     prune_folder log_path root source_path folder s5 = (Some e, s') \<Longrightarrow>
     raised_in_pass n h source replica log_path s e s'"

section \<open>Inputs for the examples\<close>

text \<open>A hasher that keeps every byte, and the trees of the scenario in the specification.\<close>

definition plain_md5 :: "string md5" where
  "plain_md5 = \<lparr>md5_new = [], md5_update = (@), md5_hexdigest = id\<rparr>"

definition scenario_fs :: filesystem where
  "scenario_fs =
     [([], Dir), ([''s''], Dir), ([''s'', ''a.txt''], File ''hello'' 1), ([''s'', ''sub''], Dir),
      ([''s'', ''sub'', ''b.txt''], File ''world'' 2)]"

definition scenario :: state where
  "scenario = \<lparr>files = scenario_fs, console = [], clock = 100\<rparr>"

text \<open>
  A replica folder \<^verbatim>\<open>r/d\<close> that the source does not have, with the log file inside it.
\<close>

definition log_inside_fs :: filesystem where
  "log_inside_fs = [([], Dir), ([''s''], Dir), ([''r''], Dir), ([''r'', ''d''], Dir)]"

definition log_inside :: state where
  "log_inside = \<lparr>files = log_inside_fs, console = [], clock = 100\<rparr>"

text \<open>A file of the source whose name is a folder of the replica.\<close>

definition clash_fs :: filesystem where
  "clash_fs = [([], Dir), ([''s''], Dir), ([''s'', ''f''], File ''x'' 1), ([''r''], Dir), ([''r'', ''f''], Dir)]"

definition clash :: state where
  "clash = \<lparr>files = clash_fs, console = [], clock = 100\<rparr>"

text \<open>A source path that is a regular file, lying inside a replica with other entries.\<close>

definition nested_fs :: filesystem where
  "nested_fs =
     [([], Dir), ([''r''], Dir), ([''r'', ''s''], File ''data'' 3), ([''r'', ''a''], File ''x'' 1),
      ([''r'', ''d''], Dir), ([''r'', ''d'', ''b''], File ''y'' 2)]"

definition nested :: state where
  "nested = \<lparr>files = nested_fs, console = [], clock = 100\<rparr>"

section \<open>Notions for the statements\<close>

text \<open>
  The text of some log lines, a filesystem in which these lines have been appended to the
  log file at the time \<open>now\<close>, and the state that differs from \<open>s\<close> by a filesystem and
  by lines printed and logged.
\<close>

definition log_text :: "message list \<Rightarrow> bytes" where
  "log_text msgs = concat (map (\<lambda>m. render m @ [CHR 0x0A]) msgs)"

definition logged :: "path \<Rightarrow> message list \<Rightarrow> nat \<Rightarrow> filesystem \<Rightarrow> filesystem" where
  "logged log_path msgs now fs =
     (if msgs = [] then fs
      else map (\<lambda>(q, e). (q, if q = log_path
                                then (case e of File c m \<Rightarrow> File (c @ log_text msgs) now | Dir \<Rightarrow> Dir)
                                else e)) fs)"

definition advance :: "path \<Rightarrow> state \<Rightarrow> filesystem \<Rightarrow> message list \<Rightarrow> state" where
  "advance log_path s fs msgs =
     s\<lparr>files := logged log_path msgs (clock s) fs, console := console s @ msgs\<rparr>"

text \<open>
  Two paths are apart when neither is at or below the other. The counterpart in the
  source of a path of the replica; an orphan is a path of the replica with nothing at its
  counterpart, and it is doomed below \<open>tp\<close> when it lies strictly below \<open>tp\<close>.
\<close>

definition apart :: "path \<Rightarrow> path \<Rightarrow> bool" where
  "apart a b \<longleftrightarrow> \<not> prefix a b \<and> \<not> prefix b a"

text \<open>
  The replica is clear of the source when no entry strictly inside the source lies
  strictly inside the replica: the two trees are apart, or the source is not a directory,
  or the tree inside the other is empty.
\<close>

definition clear :: "filesystem \<Rightarrow> path \<Rightarrow> path \<Rightarrow> bool" where
  "clear F source replica \<longleftrightarrow>
     (\<forall>rel. rel \<noteq> [] \<longrightarrow> map_of F (source @ rel) \<noteq> None \<longrightarrow> \<not> strict_prefix replica (source @ rel))"

definition counterpart :: "path \<Rightarrow> path \<Rightarrow> path \<Rightarrow> path" where
  "counterpart source replica q = source @ drop (length replica) q"

definition orphan :: "filesystem \<Rightarrow> path \<Rightarrow> path \<Rightarrow> path \<Rightarrow> bool" where
  "orphan F source replica q \<longleftrightarrow> map_of F (counterpart source replica q) = None"

definition doomed :: "filesystem \<Rightarrow> path \<Rightarrow> path \<Rightarrow> path \<Rightarrow> path \<Rightarrow> bool" where
  "doomed F source replica tp q \<longleftrightarrow> strict_prefix tp q \<and> orphan F source replica q"

definition removals :: "filesystem \<Rightarrow> path \<Rightarrow> path \<Rightarrow> path \<Rightarrow> message set" where
  "removals F source replica tp =
     {RemovedFile q |q. doomed F source replica tp q \<and> (\<exists>c m. map_of F q = Some (File c m))} \<union>
     {RemovedFolder q |q. doomed F source replica tp q \<and> map_of F q = Some Dir}"

section \<open>Exceptions leave the loops\<close>

declare os_makedirs.simps [simp del]

declare read_chunks.simps [simp del]

declare show_nat.simps [simp del]

lemma seq_raise: "p s = (Some e, s') \<Longrightarrow> seq p q s = (Some e, s')"
  by (simp add: seq_def)

lemma seq_next: "p s = (None, s1) \<Longrightarrow> seq p q s = q s1"
  by (simp add: seq_def)

lemma for_each_raise:
  "for_each body before s = (None, s1) \<Longrightarrow> body x s1 = (Some e, s') \<Longrightarrow>
   for_each body (before @ x # after) s = (Some e, s')"
proof (induction before arbitrary: s)
  case Nil
  then show ?case by simp
next
  case (Cons y ys)
  obtain r sy where y: "body y s = (r, sy)" by (cases "body y s")
  with Cons.prems(1) have r: "r = None" by (cases r) auto
  with y Cons.prems(1) have "for_each body ys sy = (None, s1)" by simp
  from Cons.IH [OF this Cons.prems(2)] y r show ?case by simp
qed

lemma walk_raise:
  "visits n td body tp s t st \<Longrightarrow> body t st = (Some e, s') \<Longrightarrow>
     os_walk n td body tp s = Some (Some e, s')"
  "visits_dirs n td body tp ds s t st \<Longrightarrow> body t st = (Some e, s') \<Longrightarrow>
     os_walk_dirs n td body tp ds s = Some (Some e, s')"
proof (induction rule: visits_visits_dirs.inducts)
  case (top_down_here s top_path dirs nondirs n body)
  then show ?case by simp
next
  case (top_down_below s top_path dirs nondirs body s1 n t st)
  then show ?case by simp
next
  case (bottom_up_below s top_path dirs nondirs n body t st)
  then show ?case by simp
next
  case (bottom_up_here s top_path dirs nondirs n body s1)
  then show ?case by simp
next
  case (first_dir n topdown body top_path d s t st ds)
  then show ?case by simp
next
  case (later_dir n topdown body top_path d s s1 ds t st)
  then show ?case by simp
qed

section \<open>Lemmas about the filesystem and the walks\<close>

lemma map_of_filter_key:
  "map_of (filter (\<lambda>(q, e). P q) fs) p = (if P p then map_of fs p else None)"
  by (induction fs) auto

lemma map_of_write_file: "map_of (write_file fs p v) q = (if q = p then Some v else map_of fs q)"
  by (induction fs p v rule: write_file.induct) auto

lemma map_of_snoc:
  "map_of (fs @ [(p, v)]) q =
     (case map_of fs q of None \<Rightarrow> if q = p then Some v else None | Some e \<Rightarrow> Some e)"
  by (induction fs) auto

lemma keys_write_file: "fst ` set (write_file fs p v) = insert p (fst ` set fs)"
  by (induction fs p v rule: write_file.induct) auto

lemma distinct_write_file:
  "distinct (map fst fs) \<Longrightarrow> distinct (map fst (write_file fs p v))"
proof (induction fs p v rule: write_file.induct)
  case (1 p v)
  then show ?case by simp
next
  case (2 q e fs p v)
  then show ?case using keys_write_file [of fs p v] by (auto simp: image_iff)
qed

lemma distinct_filter_keys: "distinct (map fst fs) \<Longrightarrow> distinct (map fst (filter P fs))"
  by (rule distinct_map_filter)

lemma depth_ge: "(p, e) \<in> set fs \<Longrightarrow> length p \<le> depth fs"
  by (induction fs) auto

lemma depth_map_of: "map_of fs p = Some e \<Longrightarrow> length p \<le> depth fs"
  by (auto dest: map_of_SomeD depth_ge)

lemma plain_simps [simp]:
  "plain []" "plain (x # xs) \<longleftrightarrow> x \<noteq> ''.'' \<and> plain xs" "plain (a @ b) \<longleftrightarrow> plain a \<and> plain b"
  by (auto simp: plain_def)

lemma dotted_snoc [simp]: "dotted (p @ [x]) \<longleftrightarrow> x = ''.''"
  by (simp add: dotted_def)

lemma dotted_Nil [simp]: "\<not> dotted []"
  by (simp add: dotted_def)

lemma plain_not_dotted: "plain p \<Longrightarrow> \<not> dotted p"
proof
  assume p: "plain p" and d: "dotted p"
  from d have "p \<noteq> []" and l: "last p = ''.''" by (simp_all add: dotted_def)
  from last_in_set [OF this(1)] l have "''.'' \<in> set p" by simp
  with p show False by (simp add: plain_def)
qed

lemma plain_butlast: "plain p \<Longrightarrow> plain (butlast p)"
  by (auto simp: plain_def dest: in_set_butlastD)

lemma plain_prefix: "plain p \<Longrightarrow> prefix q p \<Longrightarrow> plain q"
  by (auto simp: prefix_def)

lemma os_path_join_plain: "\<not> dotted a \<Longrightarrow> os_path_join a b = a @ b"
  by (simp add: os_path_join_def)

lemma os_path_join_dot: "os_path_join (a @ [''.'']) [x] = a @ [x]"
  by (simp add: os_path_join_def)

lemma os_path_exists_plain: "\<not> dotted p \<Longrightarrow> os_path_exists fs p \<longleftrightarrow> map_of fs p \<noteq> None"
  by (simp add: os_path_exists_def)

lemma os_path_exists_dot: "os_path_exists fs (p @ [''.'']) \<longleftrightarrow> map_of fs p = Some Dir"
  by (simp add: os_path_exists_def)

lemma wf_fs_iff:
  "wf_fs fs \<longleftrightarrow>
     distinct (map fst fs) \<and> map_of fs [] = Some Dir \<and>
     (\<forall>p. p \<noteq> [] \<longrightarrow> map_of fs p \<noteq> None \<longrightarrow> map_of fs (butlast p) = Some Dir) \<and>
     (\<forall>p. map_of fs p \<noteq> None \<longrightarrow> plain p)"
proof -
  have "(\<forall>(p, e) \<in> set fs. plain p \<and> (p \<noteq> [] \<longrightarrow> map_of fs (butlast p) = Some Dir)) \<longleftrightarrow>
        (\<forall>p. p \<noteq> [] \<longrightarrow> map_of fs p \<noteq> None \<longrightarrow> map_of fs (butlast p) = Some Dir) \<and>
        (\<forall>p. map_of fs p \<noteq> None \<longrightarrow> plain p)"
    if d: "distinct (map fst fs)"
  proof
    assume a: "\<forall>(p, e) \<in> set fs. plain p \<and> (p \<noteq> [] \<longrightarrow> map_of fs (butlast p) = Some Dir)"
    have "plain p \<and> (p \<noteq> [] \<longrightarrow> map_of fs (butlast p) = Some Dir)" if "map_of fs p \<noteq> None" for p
    proof -
      from that obtain e where "map_of fs p = Some e" by blast
      then have "(p, e) \<in> set fs" by (rule map_of_SomeD)
      with a show ?thesis by blast
    qed
    then show "(\<forall>p. p \<noteq> [] \<longrightarrow> map_of fs p \<noteq> None \<longrightarrow> map_of fs (butlast p) = Some Dir) \<and>
        (\<forall>p. map_of fs p \<noteq> None \<longrightarrow> plain p)" by blast
  next
    assume a: "(\<forall>p. p \<noteq> [] \<longrightarrow> map_of fs p \<noteq> None \<longrightarrow> map_of fs (butlast p) = Some Dir) \<and>
        (\<forall>p. map_of fs p \<noteq> None \<longrightarrow> plain p)"
    show "\<forall>(p, e) \<in> set fs. plain p \<and> (p \<noteq> [] \<longrightarrow> map_of fs (butlast p) = Some Dir)"
    proof (clarify)
      fix p e assume "(p, e) \<in> set fs"
      from map_of_is_SomeI [OF d this] have "map_of fs p \<noteq> None" by simp
      with a show "plain p \<and> (p \<noteq> [] \<longrightarrow> map_of fs (butlast p) = Some Dir)" by blast
    qed
  qed
  then show ?thesis unfolding wf_fs_def by blast
qed

lemma wf_plain: "wf_fs fs \<Longrightarrow> map_of fs p = Some e \<Longrightarrow> plain p"
  by (simp add: wf_fs_iff)

lemma wf_distinct: "wf_fs fs \<Longrightarrow> distinct (map fst fs)"
  by (simp add: wf_fs_iff)

lemma wf_parent: "wf_fs fs \<Longrightarrow> map_of fs (p @ [x]) = Some e \<Longrightarrow> map_of fs p = Some Dir"
proof -
  assume w: "wf_fs fs" and m: "map_of fs (p @ [x]) = Some e"
  from w have "\<forall>q. q \<noteq> [] \<longrightarrow> map_of fs q \<noteq> None \<longrightarrow> map_of fs (butlast q) = Some Dir"
    by (simp add: wf_fs_iff)
  then have "map_of fs (butlast (p @ [x])) = Some Dir" using m by (metis option.distinct(1) snoc_eq_iff_butlast)
  then show ?thesis by simp
qed

lemma wf_ancestor:
  "wf_fs fs \<Longrightarrow> map_of fs (p @ q) = Some e \<Longrightarrow> q \<noteq> [] \<Longrightarrow> map_of fs p = Some Dir"
proof (induction q arbitrary: e rule: rev_induct)
  case Nil
  then show ?case by simp
next
  case (snoc x q)
  from snoc.prems have par: "map_of fs (p @ q) = Some Dir"
    using wf_parent [of fs "p @ q" x e] by simp
  show ?case
  proof (cases "q = []")
    case True
    with par show ?thesis by simp
  next
    case False
    with snoc.IH [OF snoc.prems(1) par] show ?thesis by simp
  qed
qed

lemma scandir_plain:
  "\<not> dotted tp \<Longrightarrow> scandir fs tp =
     (if map_of fs tp = Some Dir then
        Some (map (last \<circ> fst) (filter (\<lambda>(p, e). p \<noteq> [] \<and> butlast p = tp \<and> e = Dir) fs),
              map (last \<circ> fst) (filter (\<lambda>(p, e). p \<noteq> [] \<and> butlast p = tp \<and> e \<noteq> Dir) fs))
      else None)"
  by (simp add: scandir_def)

lemma scandir_isdir: "\<not> dotted tp \<Longrightarrow> scandir fs tp = Some a \<Longrightarrow> map_of fs tp = Some Dir"
  by (auto simp: scandir_plain split: if_splits)

lemma scandir_names:
  assumes "scandir fs tp = Some (ds, ns)" "x \<in> set ds \<union> set ns"
  shows "\<exists>p e. (p, e) \<in> set fs \<and> p \<noteq> [] \<and> last p = x"
proof -
  let ?d = "if dotted tp then butlast tp else tp"
  from assms obtain p e where "(p, e) \<in> set fs" "p \<noteq> []" "butlast p = ?d" "x = last p"
    by (auto simp: scandir_def Let_def split: if_splits)
  then show ?thesis by blast
qed

lemma scandir_names_plain:
  assumes "\<forall>(p, e) \<in> set fs. plain p" "scandir fs tp = Some (ds, ns)" "x \<in> set ds \<union> set ns"
  shows "x \<noteq> ''.''"
proof -
  from scandir_names [OF assms(2,3)] obtain p e where p: "(p, e) \<in> set fs" "p \<noteq> []" "last p = x"
    by blast
  with assms(1) have "plain p" by blast
  from plain_not_dotted [OF this] p(2,3) show ?thesis by (auto simp: dotted_def)
qed

lemma os_walk_invariant_aux:
  fixes I :: "state \<Rightarrow> bool"
  assumes body: "\<And>s0 root dirs nondirs s r s'.
      I s0 \<Longrightarrow> scandir (files s0) root = Some (dirs, nondirs) \<Longrightarrow> prefix top0 root \<Longrightarrow>
      \<not> dotted root \<Longrightarrow> I s \<Longrightarrow> body (root, dirs, nondirs) s = (r, s') \<Longrightarrow> I s'"
  assumes bound: "\<And>s p e. I s \<Longrightarrow> map_of (files s) p = Some e \<Longrightarrow> length p < B"
  assumes names: "\<And>s. I s \<Longrightarrow> \<forall>(p, e) \<in> set (files s). plain p"
  shows "\<forall>tp s. I s \<longrightarrow> prefix top0 tp \<longrightarrow> \<not> dotted tp \<longrightarrow> B \<le> n + length tp \<longrightarrow>
           (\<exists>r s'. os_walk n td body tp s = Some (r, s') \<and> I s')"
proof (induction n)
  case 0
  show ?case
  proof (intro allI impI)
    fix tp s assume I: "I s" and "prefix top0 tp" and nd: "\<not> dotted tp" and B: "B \<le> 0 + length tp"
    show "\<exists>r s'. os_walk 0 td body tp s = Some (r, s') \<and> I s'"
    proof (cases "scandir (files s) tp")
      case None
      with I show ?thesis by simp
    next
      case (Some a)
      from bound [OF I scandir_isdir [OF nd Some]] B show ?thesis by simp
    qed
  qed
next
  case (Suc n)
  have dirs: "\<exists>r s'. os_walk_dirs n td body tp ds s = Some (r, s') \<and> I s'"
    if "I s" "prefix top0 tp" "B \<le> n + length tp + 1" "\<not> dotted tp" "\<forall>d \<in> set ds. d \<noteq> ''.''"
    for tp ds s
    using that
  proof (induction ds arbitrary: s)
    case Nil
    then show ?case by simp
  next
    case (Cons d ds)
    have j: "os_path_join tp [d] = tp @ [d]" using Cons.prems(4) by (rule os_path_join_plain)
    have "prefix top0 (tp @ [d])" using Cons.prems(2) by (rule prefix_prefix)
    moreover have "B \<le> n + length (tp @ [d])" using Cons.prems(3) by simp
    moreover have "\<not> dotted (tp @ [d])" using Cons.prems(5) by simp
    ultimately obtain r s1 where w: "os_walk n td body (tp @ [d]) s = Some (r, s1)" and I1: "I s1"
      using Suc Cons.prems(1) by blast
    have rest: "\<forall>d \<in> set ds. d \<noteq> ''.''" using Cons.prems(5) by simp
    show ?case
    proof (cases r)
      case None
      with w Cons.IH [OF I1 Cons.prems(2,3,4) rest] show ?thesis by (simp add: j)
    next
      case (Some e)
      with w I1 show ?thesis by (simp add: j)
    qed
  qed
  show ?case
  proof (intro allI impI)
    fix tp s assume I: "I s" and p: "prefix top0 tp" and nd: "\<not> dotted tp"
      and B: "B \<le> Suc n + length tp"
    show "\<exists>r s'. os_walk (Suc n) td body tp s = Some (r, s') \<and> I s'"
    proof (cases "scandir (files s) tp")
      case None
      with I show ?thesis by simp
    next
      case (Some a)
      obtain ds fs where a: "a = (ds, fs)" by (cases a)
      have sc: "scandir (files s) tp = Some (ds, fs)" using Some a by simp
      have nm: "\<forall>d \<in> set ds. d \<noteq> ''.''"
        using scandir_names_plain [OF names [OF I] sc] by blast
      show ?thesis
      proof (cases td)
        case True
        obtain r s1 where b: "body (tp, ds, fs) s = (r, s1)" by (cases "body (tp, ds, fs) s")
        have I1: "I s1" by (rule body [OF I sc p nd I b])
        show ?thesis
        proof (cases r)
          case None
          from dirs [OF I1 p _ nd nm] B obtain r' s' where
            "os_walk_dirs n td body tp ds s1 = Some (r', s')" "I s'" by auto
          with sc True b None show ?thesis by simp
        next
          case (Some e)
          with sc True b I1 show ?thesis by simp
        qed
      next
        case False
        from dirs [OF I p _ nd nm] B obtain r1 s1 where
          w: "os_walk_dirs n td body tp ds s = Some (r1, s1)" and I1: "I s1" by auto
        show ?thesis
        proof (cases r1)
          case None
          obtain r s' where b: "body (tp, ds, fs) s1 = (r, s')" by (cases "body (tp, ds, fs) s1")
          have "I s'" by (rule body [OF I sc p nd I1 b])
          with sc False w None b show ?thesis by simp
        next
          case (Some e)
          with sc False w I1 show ?thesis by simp
        qed
      qed
    qed
  qed
qed

lemma os_walk_invariant:
  fixes I :: "state \<Rightarrow> bool"
  assumes body: "\<And>s0 root dirs nondirs s r s'.
      I s0 \<Longrightarrow> scandir (files s0) root = Some (dirs, nondirs) \<Longrightarrow> prefix top0 root \<Longrightarrow>
      \<not> dotted root \<Longrightarrow> I s \<Longrightarrow> body (root, dirs, nondirs) s = (r, s') \<Longrightarrow> I s'"
  assumes bound: "\<And>s p e. I s \<Longrightarrow> map_of (files s) p = Some e \<Longrightarrow> length p < B"
  assumes names: "\<And>s. I s \<Longrightarrow> \<forall>(p, e) \<in> set (files s). plain p"
  assumes "I s" and "B \<le> n + length top0" and "\<not> dotted top0"
  shows "\<exists>r s'. os_walk n td body top0 s = Some (r, s') \<and> I s'"
proof -
  have "\<forall>tp s. I s \<longrightarrow> prefix top0 tp \<longrightarrow> \<not> dotted tp \<longrightarrow> B \<le> n + length tp \<longrightarrow>
           (\<exists>r s'. os_walk n td body tp s = Some (r, s') \<and> I s')"
  proof (rule os_walk_invariant_aux)
    show "I s'" if "I s0" "scandir (files s0) root = Some (dirs, nondirs)" "prefix top0 root"
      "\<not> dotted root" "I s" "body (root, dirs, nondirs) s = (r, s')" for s0 root dirs nondirs s r s'
      using that by (rule body)
    show "length p < B" if "I s" "map_of (files s) p = Some e" for s p e
      using that by (rule bound)
    show "\<forall>(p, e) \<in> set (files s). plain p" if "I s" for s
      using that by (rule names)
  qed
  with assms(4,5,6) show ?thesis by blast
qed

lemma os_mkdir_Inr:
  assumes "os_mkdir fs p = Inr fs'"
  shows "fs' = fs @ [(p, Dir)]" "map_of fs p = None" "p \<noteq> []" "map_of fs (butlast p) = Some Dir"
    "\<not> dotted p"
  using assms by (auto simp: os_mkdir_def split: if_splits option.splits entry.splits)

lemma os_mkdir_map_of:
  assumes "os_mkdir fs p = Inr fs'"
  shows "map_of fs' q = (if q = p then Some Dir else map_of fs q)"
  using os_mkdir_Inr [OF assms] by (auto simp: map_add_def split: option.splits)

lemma os_mkdir_ok:
  assumes "map_of fs p = None" "map_of fs (butlast p) = Some Dir" "\<not> dotted p"
  shows "os_mkdir fs p = Inr (fs @ [(p, Dir)])"
  using assms by (auto simp: os_mkdir_def)

lemma os_mkdir_dot:
  "os_mkdir fs (p @ [''.'']) =
     (case map_of fs p of
        None \<Rightarrow> Inl FileNotFoundError
      | Some (File c m) \<Rightarrow> Inl NotADirectoryError
      | Some Dir \<Rightarrow> Inl FileExistsError)"
  by (simp add: os_mkdir_def)

lemma plain_snoc_iff: "p \<noteq> [] \<Longrightarrow> plain p \<longleftrightarrow> plain (butlast p) \<and> \<not> dotted p"
  using plain_simps(3) [of "butlast p" "[last p]"] by (simp add: dotted_def)

lemma os_makedirs_parent:
  assumes "p = [] \<or> map_of fs (butlast p) \<noteq> None" "plain p"
  shows "os_makedirs fs p = os_mkdir fs p"
proof (cases "p = []")
  case True
  show ?thesis by (subst os_makedirs.simps) (simp add: True)
next
  case False
  have "\<not> dotted (butlast p)" using assms(2) by (intro plain_not_dotted plain_butlast)
  with assms False have e: "os_path_exists fs (butlast p)" by (simp add: os_path_exists_plain)
  show ?thesis by (subst os_makedirs.simps) (simp add: e)
qed

lemma wf_snoc_dir:
  assumes "wf_fs fs" "map_of fs p = None" "map_of fs (butlast p) = Some Dir" "plain p"
  shows "wf_fs (fs @ [(p, Dir)])"
proof -
  have "p \<notin> fst ` set fs" using assms(2) by (simp add: map_of_eq_None_iff)
  then have d: "distinct (map fst (fs @ [(p, Dir)]))" using assms(1) by (simp add: wf_fs_iff)
  have r: "map_of (fs @ [(p, Dir)]) [] = Some Dir" using assms(1) by (simp add: wf_fs_iff map_add_def)
  have c: "map_of (fs @ [(p, Dir)]) (butlast q) = Some Dir"
    if "q \<noteq> []" "map_of (fs @ [(p, Dir)]) q \<noteq> None" for q
  proof (cases "q = p")
    case True
    with assms(3) show ?thesis by (simp add: map_add_def)
  next
    case False
    with that have "map_of fs q \<noteq> None" by (auto simp: map_add_def split: option.splits)
    with assms(1) that(1) have "map_of fs (butlast q) = Some Dir" by (simp add: wf_fs_iff)
    then show ?thesis by (simp add: map_add_def)
  qed
  have pl: "plain q" if "map_of (fs @ [(p, Dir)]) q \<noteq> None" for q
  proof (cases "q = p")
    case True
    with assms(4) show ?thesis by simp
  next
    case False
    with that have "map_of fs q \<noteq> None" by (auto simp: map_add_def split: option.splits)
    with assms(1) show ?thesis by (simp add: wf_fs_iff)
  qed
  from d r c pl show ?thesis unfolding wf_fs_iff by blast
qed

lemma os_mkdir_wf:
  assumes "wf_fs fs" "os_mkdir fs p = Inr fs'"
  shows "wf_fs fs'"
proof -
  note f = os_mkdir_Inr [OF assms(2)]
  have "plain (butlast p)" by (rule wf_plain [OF assms(1) f(4)])
  with f(3,5) have "plain p" by (simp add: plain_snoc_iff)
  from wf_snoc_dir [OF assms(1) f(2) f(4) this] f(1) show ?thesis by simp
qed

lemma prefix_butlast_cases: "p \<noteq> [] \<Longrightarrow> prefix q p \<longleftrightarrow> q = p \<or> prefix q (butlast p)"
  using prefix_snoc [of q "butlast p" "last p"] by simp

lemma depth_append [simp]: "depth (xs @ ys) = max (depth xs) (depth ys)"
  by (induction xs) auto

lemma depth_filter: "depth (filter P fs) \<le> depth fs"
  by (induction fs) auto

lemma os_mkdir_not_Inr: "map_of fs (butlast p) = None \<Longrightarrow> os_mkdir fs p \<noteq> Inr fs'"
  by (auto simp: os_mkdir_def)

lemma os_makedirs_spec:
  "wf_fs fs \<Longrightarrow> plain p \<Longrightarrow> os_makedirs fs p = Inr fs' \<Longrightarrow>
     wf_fs fs' \<and>
     (\<forall>q. map_of fs' q = (if map_of fs q = None \<and> prefix q p then Some Dir else map_of fs q)) \<and>
     depth fs' \<le> max (depth fs) (length p)"
proof (induction fs p arbitrary: fs' rule: os_makedirs.induct)
  case (1 fs p)
  note wf = "1.prems"(1) and pl = "1.prems"(2)
  have ndp: "\<not> dotted p" using pl by (rule plain_not_dotted)
  have plb: "plain (butlast p)" using pl by (rule plain_butlast)
  have ndb: "\<not> dotted (butlast p)" using plb by (rule plain_not_dotted)
  show ?case
  proof (cases "p \<noteq> [] \<and> \<not> os_path_exists fs (butlast p)")
    case False
    then have "os_makedirs fs p = os_mkdir fs p"
      using ndb by (intro os_makedirs_parent pl) (auto simp: os_path_exists_plain)
    with "1.prems" have mk: "os_mkdir fs p = Inr fs'" by simp
    note f = os_mkdir_Inr [OF mk]
    have "map_of fs q = None \<and> prefix q p \<longleftrightarrow> q = p" for q
    proof
      assume a: "map_of fs q = None \<and> prefix q p"
      show "q = p"
      proof (rule ccontr)
        assume "q \<noteq> p"
        with a f(3) have "prefix q (butlast p)" by (simp add: prefix_butlast_cases)
        then obtain r where r: "butlast p = q @ r" by (auto simp: prefix_def)
        show False
        proof (cases "r = []")
          case True
          with r f(4) a show False by simp
        next
          case False
          from wf_ancestor [OF wf _ False, of q Dir] f(4) r a show False by simp
        qed
      qed
    next
      assume "q = p" with f(2) show "map_of fs q = None \<and> prefix q p" by simp
    qed
    then have "\<forall>q. map_of fs' q = (if map_of fs q = None \<and> prefix q p then Some Dir else map_of fs q)"
      using os_mkdir_map_of [OF mk] by simp
    moreover have "wf_fs fs'" by (rule os_mkdir_wf [OF wf mk])
    moreover have "depth fs' \<le> max (depth fs) (length p)" using f(1) by simp
    ultimately show ?thesis by blast
  next
    case True
    then have par: "map_of fs (butlast p) = None" and ne: "p \<noteq> []"
      using ndb by (auto simp: os_path_exists_plain)
    have unf: "os_makedirs fs p =
      (case os_makedirs fs (butlast p) of
         Inl e \<Rightarrow> (if e = FileExistsError then os_mkdir fs p else Inl e)
       | Inr fs1 \<Rightarrow> os_mkdir fs1 p)"
      by (subst os_makedirs.simps) (simp only: True ndp if_True if_False simp_thms)
    show ?thesis
    proof (cases "os_makedirs fs (butlast p)")
      case (Inl e)
      with unf "1.prems"(3) os_mkdir_not_Inr [OF par, of fs'] show ?thesis
        by (auto split: if_splits)
    next
      case (Inr fs1)
      with unf "1.prems"(3) have mk: "os_mkdir fs1 p = Inr fs'" by simp
      from "1.IH" [OF True wf plb Inr] have wf1: "wf_fs fs1"
        and m1: "\<And>q. map_of fs1 q =
                  (if map_of fs q = None \<and> prefix q (butlast p) then Some Dir else map_of fs q)"
        and d1: "depth fs1 \<le> max (depth fs) (length (butlast p))" by auto
      note f = os_mkdir_Inr [OF mk]
      have np: "\<not> prefix p (butlast p)"
        using ne by (metis append_butlast_last_id prefix_order.dual_order.antisym prefix_snoc
            self_append_conv snoc_eq_iff_butlast prefixI)
      have pn: "map_of fs p = None" using f(2) m1 [of p] np by (simp split: if_splits)
      have "map_of fs' q = (if map_of fs q = None \<and> prefix q p then Some Dir else map_of fs q)" for q
        using os_mkdir_map_of [OF mk, of q] m1 [of q] pn ne
        by (auto simp: prefix_butlast_cases)
      moreover have "wf_fs fs'" by (rule os_mkdir_wf [OF wf1 mk])
      moreover have "depth fs' \<le> max (depth fs) (length p)" using f(1) d1 by auto
      ultimately show ?thesis by blast
    qed
  qed
qed

lemma os_remove_Inr:
  assumes "os_remove fs p = Inr fs'"
  shows "\<exists>c m. map_of fs p = Some (File c m)" "fs' = filter (\<lambda>(q, e). q \<noteq> p) fs"
  using assms by (auto simp: os_remove_def split: option.splits entry.splits)

lemma os_remove_ok:
  "map_of fs p = Some (File c m) \<Longrightarrow> os_remove fs p = Inr (filter (\<lambda>(q, e). q \<noteq> p) fs)"
  by (simp add: os_remove_def)

lemma shutil_rmtree_ok:
  "map_of fs p = Some Dir \<Longrightarrow> shutil_rmtree fs p = Inr (filter (\<lambda>(q, e). \<not> prefix p q) fs)"
  by (simp add: shutil_rmtree_def)

lemma shutil_rmtree_Inr:
  assumes "shutil_rmtree fs p = Inr fs'"
  shows "map_of fs p = Some Dir" "fs' = filter (\<lambda>(q, e). \<not> prefix p q) fs"
  using assms by (auto simp: shutil_rmtree_def split: option.splits entry.splits)

lemma shutil_copy2_file:
  assumes "map_of fs dst \<noteq> Some Dir" "\<not> dotted dst" "\<not> dotted src"
  shows "shutil_copy2 fs src dst =
     (if map_of fs src \<noteq> None \<and> src = dst then Inl SameFileError
      else case map_of fs src of
             None \<Rightarrow> Inl FileNotFoundError
           | Some Dir \<Rightarrow> Inl IsADirectoryError
           | Some (File c m) \<Rightarrow>
               (case map_of fs (butlast dst) of
                  None \<Rightarrow> Inl FileNotFoundError
                | Some (File c' m') \<Rightarrow> Inl NotADirectoryError
                | Some Dir \<Rightarrow> Inr (write_file fs dst (File c m))))"
proof -
  have d: "os_path_isdir fs dst = False" using assms by (simp add: os_path_isdir_def)
  show ?thesis
    unfolding shutil_copy2_def d if_False Let_def os_path_exists_plain [OF assms(3)] by (rule refl)
qed

lemma shutil_copy2_Inr:
  assumes "shutil_copy2 fs src dst = Inr fs'" "map_of fs dst \<noteq> Some Dir"
    "\<not> dotted dst" "\<not> dotted src"
  shows "\<exists>c m. map_of fs src = Some (File c m) \<and> fs' = write_file fs dst (File c m)"
    "map_of fs (butlast dst) = Some Dir" "src \<noteq> dst"
proof -
  note eq = assms(1) [unfolded shutil_copy2_file [OF assms(2,3,4)]]
  show "src \<noteq> dst"
  proof
    assume "src = dst"
    with eq show False by (cases "map_of fs src") (simp_all)
  qed
  then have eq2: "(case map_of fs src of
             None \<Rightarrow> Inl FileNotFoundError
           | Some Dir \<Rightarrow> Inl IsADirectoryError
           | Some (File c m) \<Rightarrow>
               (case map_of fs (butlast dst) of
                  None \<Rightarrow> Inl FileNotFoundError
                | Some (File c' m') \<Rightarrow> Inl NotADirectoryError
                | Some Dir \<Rightarrow> Inr (write_file fs dst (File c m)))) = Inr fs'"
    using eq by simp
  then obtain c m where s: "map_of fs src = Some (File c m)"
    by (cases "map_of fs src") (auto split: entry.splits)
  with eq2 have eq3: "(case map_of fs (butlast dst) of
                  None \<Rightarrow> Inl FileNotFoundError
                | Some (File c' m') \<Rightarrow> Inl NotADirectoryError
                | Some Dir \<Rightarrow> Inr (write_file fs dst (File c m))) = Inr fs'" by simp
  then show par: "map_of fs (butlast dst) = Some Dir"
    by (cases "map_of fs (butlast dst)") (auto split: entry.splits)
  with eq3 s show "\<exists>c m. map_of fs src = Some (File c m) \<and> fs' = write_file fs dst (File c m)"
    by simp
qed

lemma shutil_copy2_ok:
  assumes "map_of fs src = Some (File c m)" "map_of fs dst \<noteq> Some Dir"
    "map_of fs (butlast dst) = Some Dir" "src \<noteq> dst" "\<not> dotted dst" "\<not> dotted src"
  shows "shutil_copy2 fs src dst = Inr (write_file fs dst (File c m))"
  using assms by (simp add: shutil_copy2_file)

lemma depth_write_file: "depth (write_file fs p v) \<le> max (depth fs) (length p)"
  by (induction fs p v rule: write_file.induct) auto

lemma wf_write_file:
  assumes "wf_fs fs" "map_of fs p \<noteq> Some Dir" "map_of fs (butlast p) = Some Dir" "plain p"
  shows "wf_fs (write_file fs p (File c m))"
proof -
  from assms(1) have d: "distinct (map fst fs)" and r: "map_of fs [] = Some Dir"
    and c: "\<And>q. q \<noteq> [] \<Longrightarrow> map_of fs q \<noteq> None \<Longrightarrow> map_of fs (butlast q) = Some Dir"
    and pl: "\<And>q. map_of fs q \<noteq> None \<Longrightarrow> plain q"
    by (simp_all add: wf_fs_iff)
  have pl': "plain q" if "map_of (write_file fs p (File c m)) q \<noteq> None" for q
    using that assms(4) pl [of q] by (cases "q = p") (auto simp: map_of_write_file)
  have pne: "p \<noteq> []" using assms(2) r by auto
  have "map_of (write_file fs p (File c m)) (butlast q) = Some Dir"
    if "q \<noteq> []" "map_of (write_file fs p (File c m)) q \<noteq> None" for q
  proof -
    have par: "map_of fs (butlast q) = Some Dir"
      using that assms(3) c [of q] by (cases "q = p") (auto simp: map_of_write_file)
    then have "butlast q \<noteq> p" using assms(2) by auto
    with par show ?thesis by (simp add: map_of_write_file)
  qed
  moreover have "map_of (write_file fs p (File c m)) [] = Some Dir"
    using r pne by (simp add: map_of_write_file)
  ultimately show ?thesis unfolding wf_fs_iff using distinct_write_file [OF d] pl' by blast
qed

lemma wf_filter:
  assumes "wf_fs fs" "K []"
    and "\<And>q. q \<noteq> [] \<Longrightarrow> map_of fs q \<noteq> None \<Longrightarrow> K q \<Longrightarrow> K (butlast q)"
  shows "wf_fs (filter (\<lambda>(q, e). K q) fs)"
proof -
  from assms(1) have d: "distinct (map fst fs)" and r: "map_of fs [] = Some Dir"
    and c: "\<And>q. q \<noteq> [] \<Longrightarrow> map_of fs q \<noteq> None \<Longrightarrow> map_of fs (butlast q) = Some Dir"
    and pl: "\<And>q. map_of fs q \<noteq> None \<Longrightarrow> plain q"
    by (simp_all add: wf_fs_iff)
  let ?fs = "filter (\<lambda>(q, e). K q) fs"
  have pl': "plain q" if "map_of ?fs q \<noteq> None" for q
    using that pl [of q] by (auto simp: map_of_filter_key split: if_splits)
  have "map_of ?fs (butlast q) = Some Dir" if "q \<noteq> []" "map_of ?fs q \<noteq> None" for q
  proof -
    from that(2) have k: "K q" and m: "map_of fs q \<noteq> None"
      by (auto simp: map_of_filter_key split: if_splits)
    from assms(3) [OF that(1) m k] c [OF that(1) m] show ?thesis
      by (simp add: map_of_filter_key)
  qed
  moreover have "map_of ?fs [] = Some Dir" using r assms(2) by (simp add: map_of_filter_key)
  ultimately show ?thesis unfolding wf_fs_iff using distinct_filter_keys [OF d] pl' by blast
qed

lemma scandir_Some:
  assumes "map_of fs tp = Some Dir" "\<not> dotted tp"
  shows "scandir fs tp =
     Some (map (last \<circ> fst) (filter (\<lambda>(p, e). p \<noteq> [] \<and> butlast p = tp \<and> e = Dir) fs),
           map (last \<circ> fst) (filter (\<lambda>(p, e). p \<noteq> [] \<and> butlast p = tp \<and> e \<noteq> Dir) fs))"
  using assms by (simp add: scandir_plain)

lemma scandir_None: "map_of fs tp \<noteq> Some Dir \<Longrightarrow> \<not> dotted tp \<Longrightarrow> scandir fs tp = None"
  by (simp add: scandir_plain)

lemma child_names_set:
  assumes "distinct (map fst fs)"
  shows "x \<in> set (map (last \<circ> fst) (filter (\<lambda>(p, e). p \<noteq> [] \<and> butlast p = tp \<and> Q e) fs))
         \<longleftrightarrow> (\<exists>e. map_of fs (tp @ [x]) = Some e \<and> Q e)"
proof
  assume "x \<in> set (map (last \<circ> fst) (filter (\<lambda>(p, e). p \<noteq> [] \<and> butlast p = tp \<and> Q e) fs))"
  then obtain p e where pe: "(p, e) \<in> set fs" "p \<noteq> []" "butlast p = tp" "Q e" "last p = x"
    by auto
  have "p = tp @ [x]" using append_butlast_last_id [OF pe(2)] pe(3,5) by simp
  with pe map_of_is_SomeI [OF assms pe(1)] show "\<exists>e. map_of fs (tp @ [x]) = Some e \<and> Q e"
    by auto
next
  assume "\<exists>e. map_of fs (tp @ [x]) = Some e \<and> Q e"
  then obtain e where e: "map_of fs (tp @ [x]) = Some e" "Q e" by blast
  then have "(tp @ [x], e) \<in> set fs" by (auto dest: map_of_SomeD)
  with e(2) have "(tp @ [x], e) \<in> set (filter (\<lambda>(p, e). p \<noteq> [] \<and> butlast p = tp \<and> Q e) fs)"
    by simp
  then have "(last \<circ> fst) (tp @ [x], e)
      \<in> (last \<circ> fst) ` set (filter (\<lambda>(p, e). p \<noteq> [] \<and> butlast p = tp \<and> Q e) fs)"
    by (rule imageI)
  then have "x \<in> (last \<circ> fst) ` set (filter (\<lambda>(p, e). p \<noteq> [] \<and> butlast p = tp \<and> Q e) fs)"
    by simp
  then show "x \<in> set (map (last \<circ> fst) (filter (\<lambda>(p, e). p \<noteq> [] \<and> butlast p = tp \<and> Q e) fs))"
    by (simp only: set_map)
qed

lemma child_names_distinct:
  assumes "distinct (map fst fs)"
  shows "distinct (map (last \<circ> fst) (filter (\<lambda>(p, e). p \<noteq> [] \<and> butlast p = tp \<and> Q e) fs))"
proof -
  let ?xs = "filter (\<lambda>(p, e). p \<noteq> [] \<and> butlast p = tp \<and> Q e) fs"
  have d: "distinct (map fst ?xs)" by (rule distinct_filter_keys [OF assms])
  have inj: "inj_on last (set (map fst ?xs))"
  proof (rule inj_onI)
    fix p q assume "p \<in> set (map fst ?xs)" "q \<in> set (map fst ?xs)" "last p = last q"
    then have "p \<noteq> []" "butlast p = tp" "q \<noteq> []" "butlast q = tp" by auto
    with \<open>last p = last q\<close> append_butlast_last_id [of p] append_butlast_last_id [of q]
    show "p = q" by simp
  qed
  have "distinct (map last (map fst ?xs))"
    by (rule iffD2 [OF distinct_map]) (rule conjI [OF d inj])
  then show ?thesis by (simp only: map_map)
qed

lemma scandir_facts:
  assumes "distinct (map fst fs)" "scandir fs tp = Some (ds, ns)" "\<not> dotted tp"
  shows "map_of fs tp = Some Dir"
    and "\<And>d. d \<in> set ds \<longleftrightarrow> map_of fs (tp @ [d]) = Some Dir"
    and "\<And>f. f \<in> set ns \<longleftrightarrow> (\<exists>c m. map_of fs (tp @ [f]) = Some (File c m))"
    and "distinct ds" and "distinct ns"
proof -
  show dir: "map_of fs tp = Some Dir" using assms(3,2) by (rule scandir_isdir)
  from assms(2) scandir_Some [OF dir assms(3)] have
    ds: "ds = map (last \<circ> fst) (filter (\<lambda>(p, e). p \<noteq> [] \<and> butlast p = tp \<and> e = Dir) fs)" and
    ns: "ns = map (last \<circ> fst) (filter (\<lambda>(p, e). p \<noteq> [] \<and> butlast p = tp \<and> e \<noteq> Dir) fs)"
    by simp_all
  show "d \<in> set ds \<longleftrightarrow> map_of fs (tp @ [d]) = Some Dir" for d
    unfolding ds using child_names_set [OF assms(1), of d tp "\<lambda>e. e = Dir"] by simp
  show "f \<in> set ns \<longleftrightarrow> (\<exists>c m. map_of fs (tp @ [f]) = Some (File c m))" for f
  proof -
    have "(\<exists>e. map_of fs (tp @ [f]) = Some e \<and> e \<noteq> Dir) \<longleftrightarrow>
          (\<exists>c m. map_of fs (tp @ [f]) = Some (File c m))"
    proof
      assume "\<exists>e. map_of fs (tp @ [f]) = Some e \<and> e \<noteq> Dir"
      then obtain e where "map_of fs (tp @ [f]) = Some e" "e \<noteq> Dir" by blast
      then show "\<exists>c m. map_of fs (tp @ [f]) = Some (File c m)" by (cases e) auto
    qed auto
    then show ?thesis
      unfolding ns using child_names_set [OF assms(1), of f tp "\<lambda>e. e \<noteq> Dir"] by simp
  qed
  show "distinct ds" unfolding ds by (rule child_names_distinct [OF assms(1)])
  show "distinct ns" unfolding ns by (rule child_names_distinct [OF assms(1)])
qed


subsection \<open>The log file among the files\<close>

lemma log_text_simps [simp]:
  "log_text [] = []" "log_text (msgs @ msgs') = log_text msgs @ log_text msgs'"
  by (simp_all add: log_text_def)

lemma logged_Nil [simp]: "logged lp [] now fs = fs"
  by (simp add: logged_def)

lemma map_fst_logged [simp]: "map fst (logged lp msgs now fs) = map fst fs"
  by (induction fs) (auto simp: logged_def)

lemma map_of_logged:
  "map_of (logged lp msgs now fs) q =
     (if q = lp \<and> msgs \<noteq> [] then
        map_option (\<lambda>e. case e of File c m \<Rightarrow> File (c @ log_text msgs) now | Dir \<Rightarrow> Dir) (map_of fs lp)
      else map_of fs q)"
  by (induction fs) (auto simp: logged_def)

lemma map_of_logged_other [simp]: "q \<noteq> lp \<Longrightarrow> map_of (logged lp msgs now fs) q = map_of fs q"
  by (simp add: map_of_logged)

lemma map_of_logged_None [simp]: "map_of (logged lp msgs now fs) q = None \<longleftrightarrow> map_of fs q = None"
  by (simp add: map_of_logged)

lemma map_of_logged_Dir [simp]:
  "map_of (logged lp msgs now fs) q = Some Dir \<longleftrightarrow> map_of fs q = Some Dir"
proof -
  have "(case e of File c m \<Rightarrow> File (c @ x) now | Dir \<Rightarrow> Dir) = Dir \<longleftrightarrow> e = Dir" for e x
    by (cases e) auto
  then show ?thesis by (auto simp: map_of_logged)
qed

lemma map_of_logged_log:
  "map_of fs lp = Some (File c m) \<Longrightarrow>
   map_of (logged lp msgs now fs) lp = Some (if msgs = [] then File c m else File (c @ log_text msgs) now)"
  by (simp add: map_of_logged)

lemma filter_logged:
  "filter (\<lambda>(q, e). K q) (logged lp msgs now fs) = logged lp msgs now (filter (\<lambda>(q, e). K q) fs)"
  by (induction fs) (auto simp: logged_def)

lemma logged_snoc_Dir: "logged lp msgs now (fs @ [(p, Dir)]) = logged lp msgs now fs @ [(p, Dir)]"
  by (simp add: logged_def)

lemma write_file_logged:
  "p \<noteq> lp \<Longrightarrow> write_file (logged lp msgs now fs) p v = logged lp msgs now (write_file fs p v)"
  by (induction fs) (auto simp: logged_def)

lemma write_file_present:
  "distinct (map fst fs) \<Longrightarrow> map_of fs lp = Some e0 \<Longrightarrow>
   write_file (map (\<lambda>(q, e). (q, if q = lp then f e else e)) fs) lp v =
   map (\<lambda>(q, e). (q, if q = lp then v else e)) fs"
proof (induction fs)
  case Nil
  then show ?case by simp
next
  case (Cons x fs)
  obtain q e where x: "x = (q, e)" by (cases x)
  show ?case
  proof (cases "q = lp")
    case True
    with Cons.prems(1) x have "lp \<notin> fst ` set fs" by auto
    then have n: "\<And>b. (lp, b) \<notin> set fs" by force
    have "map (\<lambda>(q, e). (q, if q = lp then f e else e)) fs = fs"
      and "map (\<lambda>(q, e). (q, if q = lp then v else e)) fs = fs"
      using n by (auto intro!: map_idI)
    with True x show ?thesis by simp
  next
    case False
    with Cons x show ?thesis by simp
  qed
qed

lemma logged_log_line:
  assumes d: "distinct (map fst fs)" and l: "map_of fs lp = Some (File c m)"
  shows "open_append (logged lp msgs now fs) lp (render msg @ [CHR 0x0A]) now =
           Inr (logged lp (msgs @ [msg]) now fs)"
proof -
  let ?c = "if msgs = [] then File c m else File (c @ log_text msgs) now"
  let ?v = "File (c @ log_text (msgs @ [msg])) now"
  have cur: "map_of (logged lp msgs now fs) lp = Some ?c" by (rule map_of_logged_log [OF l])
  have tgt: "logged lp (msgs @ [msg]) now fs = map (\<lambda>(q, e). (q, if q = lp then ?v else e)) fs"
  proof -
    have *: "e = File c m" if "(lp, e) \<in> set fs" for e
      using map_of_is_SomeI [OF d that] l by simp
    have "(\<lambda>(q, e). (q, if q = lp
              then (case e of File c m \<Rightarrow> File (c @ log_text (msgs @ [msg])) now | Dir \<Rightarrow> Dir)
              else e)) x = (\<lambda>(q, e). (q, if q = lp then ?v else e)) x" if "x \<in> set fs" for x
    proof -
      obtain q e where x: "x = (q, e)" by (cases x)
      show ?thesis
      proof (cases "q = lp")
        case True
        with that x have "e = File c m" using * by simp
        with x True show ?thesis by simp
      next
        case False
        with x show ?thesis by simp
      qed
    qed
    then have "map (\<lambda>(q, e). (q, if q = lp
              then (case e of File c m \<Rightarrow> File (c @ log_text (msgs @ [msg])) now | Dir \<Rightarrow> Dir)
              else e)) fs = map (\<lambda>(q, e). (q, if q = lp then ?v else e)) fs"
      by (rule map_cong [OF refl])
    then show ?thesis unfolding logged_def by simp
  qed
  have wr: "write_file (logged lp msgs now fs) lp ?v = map (\<lambda>(q, e). (q, if q = lp then ?v else e)) fs"
  proof (cases "msgs = []")
    case True
    have "map (\<lambda>(q, e). (q, if q = lp then id e else e)) fs = fs" by (induction fs) auto
    with write_file_present [OF d l, of id ?v] show ?thesis by (simp add: True)
  next
    case False
    from write_file_present [OF d l,
        of "\<lambda>e. case e of File c m \<Rightarrow> File (c @ log_text msgs) now | Dir \<Rightarrow> Dir" ?v]
    show ?thesis by (simp add: logged_def False)
  qed
  have "open_append (logged lp msgs now fs) lp (render msg @ [CHR 0x0A]) now =
      Inr (write_file (logged lp msgs now fs) lp ?v)"
    using cur by (simp add: open_append_def log_text_def)
  with wr tgt show ?thesis by simp
qed

lemma os_path_exists_logged [simp]:
  "os_path_exists (logged lp msgs now fs) p = os_path_exists fs p"
  by (simp add: os_path_exists_def)

lemma scandir_logged [simp]: "scandir (logged lp msgs now fs) tp = scandir fs tp"
proof (cases "msgs = []")
  case False
  let ?g = "\<lambda>(q, e). (q, if q = lp then (case e of File c m \<Rightarrow> File (c @ log_text msgs) now | Dir \<Rightarrow> Dir) else e)"
  have g: "logged lp msgs now fs = map ?g fs" by (simp add: logged_def False)
  have k: "map (last \<circ> fst) (filter (\<lambda>(p, e). p \<noteq> [] \<and> butlast p = d \<and> Q e) (map ?g xs))
      = map (last \<circ> fst) (filter (\<lambda>(p, e). p \<noteq> [] \<and> butlast p = d \<and> Q e) xs)"
    if "\<And>c m c' m'. Q (File c m) = Q (File c' m')" for d xs and Q :: "entry \<Rightarrow> bool"
  proof (induction xs)
    case (Cons x xs)
    obtain q e where x: "x = (q, e)" by (cases x)
    show ?case using Cons that x by (cases e) auto
  qed simp
  have d: "map_of (map ?g fs) q = Some Dir \<longleftrightarrow> map_of fs q = Some Dir" for q
    using map_of_logged_Dir [of lp msgs now fs q] by (simp add: g)
  show ?thesis unfolding scandir_def Let_def g d
    using k [of "\<lambda>e. e = Dir"] k [of "\<lambda>e. e \<noteq> Dir"] by simp
qed simp

lemma os_mkdir_logged:
  "os_mkdir (logged lp msgs now fs) p =
     (case os_mkdir fs p of Inl e \<Rightarrow> Inl e | Inr fs' \<Rightarrow> Inr (logged lp msgs now fs'))"
proof -
  have k: "(case map_of (logged lp msgs now fs) q of
             None \<Rightarrow> a | Some (File c m) \<Rightarrow> b | Some Dir \<Rightarrow> d)
         = (case map_of fs q of None \<Rightarrow> a | Some (File c m) \<Rightarrow> b | Some Dir \<Rightarrow> d)"
    for q and a b d :: "error + filesystem"
    by (auto simp: map_of_logged split: option.splits entry.splits)
  show ?thesis
    unfolding os_mkdir_def k map_of_logged_None
    by (auto simp: logged_snoc_Dir split: option.splits entry.splits)
qed

lemma os_makedirs_logged:
  "os_makedirs (logged lp msgs now fs) p =
     (case os_makedirs fs p of Inl e \<Rightarrow> Inl e | Inr fs' \<Rightarrow> Inr (logged lp msgs now fs'))"
proof (induction fs p rule: os_makedirs.induct)
  case (1 fs p)
  show ?case
  proof (cases "p \<noteq> [] \<and> \<not> os_path_exists fs (butlast p)")
    case True
    have l: "os_makedirs (logged lp msgs now fs) p =
      (case os_makedirs (logged lp msgs now fs) (butlast p) of
         Inl e \<Rightarrow> (if e = FileExistsError
                    then (if dotted p then Inr (logged lp msgs now fs) else os_mkdir (logged lp msgs now fs) p)
                    else Inl e)
       | Inr fs' \<Rightarrow> (if dotted p then Inr fs' else os_mkdir fs' p))"
      by (subst os_makedirs.simps) (simp add: True)
    have r: "os_makedirs fs p =
      (case os_makedirs fs (butlast p) of
         Inl e \<Rightarrow> (if e = FileExistsError then (if dotted p then Inr fs else os_mkdir fs p) else Inl e)
       | Inr fs' \<Rightarrow> (if dotted p then Inr fs' else os_mkdir fs' p))"
      by (subst os_makedirs.simps) (simp add: True)
    show ?thesis unfolding l r "1.IH" [OF True]
      by (cases "os_makedirs fs (butlast p)") (simp_all add: os_mkdir_logged)
  next
    case False
    have l: "os_makedirs (logged lp msgs now fs) p = os_mkdir (logged lp msgs now fs) p"
      using False by (subst os_makedirs.simps) auto
    have r: "os_makedirs fs p = os_mkdir fs p"
      using False by (subst os_makedirs.simps) auto
    show ?thesis unfolding l r by (rule os_mkdir_logged)
  qed
qed

lemma os_remove_logged:
  "os_remove (logged lp msgs now fs) p =
     (case os_remove fs p of Inl e \<Rightarrow> Inl e | Inr fs' \<Rightarrow> Inr (logged lp msgs now fs'))"
proof -
  have "filter (\<lambda>(q, e). q \<noteq> p) (logged lp msgs now fs) = logged lp msgs now (filter (\<lambda>(q, e). q \<noteq> p) fs)"
    by (rule filter_logged)
  then show ?thesis
    by (auto simp: os_remove_def map_of_logged split: option.splits entry.splits)
qed

lemma shutil_rmtree_logged:
  "shutil_rmtree (logged lp msgs now fs) p =
     (case shutil_rmtree fs p of Inl e \<Rightarrow> Inl e | Inr fs' \<Rightarrow> Inr (logged lp msgs now fs'))"
proof -
  have "filter (\<lambda>(q, e). \<not> prefix p q) (logged lp msgs now fs)
      = logged lp msgs now (filter (\<lambda>(q, e). \<not> prefix p q) fs)"
    by (rule filter_logged)
  then show ?thesis
    by (auto simp: shutil_rmtree_def map_of_logged split: option.splits entry.splits)
qed

lemma calculate_hash_logged [simp]:
  "p \<noteq> lp \<Longrightarrow> calculate_hash h (logged lp msgs now fs) p = calculate_hash h fs p"
  by (simp add: calculate_hash_def)

lemma shutil_copy2_logged:
  assumes "src \<noteq> lp" "dst \<noteq> lp" "map_of fs dst \<noteq> Some Dir" "\<not> dotted dst" "\<not> dotted src"
  shows "shutil_copy2 (logged lp msgs now fs) src dst =
     (case shutil_copy2 fs src dst of Inl e \<Rightarrow> Inl e | Inr fs' \<Rightarrow> Inr (logged lp msgs now fs'))"
proof -
  have nd: "map_of (logged lp msgs now fs) dst \<noteq> Some Dir" using assms(3) by simp
  have k: "(case map_of (logged lp msgs now fs) q of
             None \<Rightarrow> a | Some (File c m) \<Rightarrow> b | Some Dir \<Rightarrow> d)
         = (case map_of fs q of None \<Rightarrow> a | Some (File c m) \<Rightarrow> b | Some Dir \<Rightarrow> d)"
    for q and a b d :: "error + filesystem"
    by (auto simp: map_of_logged split: option.splits entry.splits)
  show ?thesis
    unfolding shutil_copy2_file [OF nd assms(4,5)] shutil_copy2_file [OF assms(3,4,5)]
    using assms(1,2)
    by (auto simp: k write_file_logged split: option.splits entry.splits)
qed

subsection \<open>States that differ by files and log lines\<close>

lemma advance_simps [simp]:
  "files (advance lp s fs msgs) = logged lp msgs (clock s) fs"
  "console (advance lp s fs msgs) = console s @ msgs"
  "clock (advance lp s fs msgs) = clock s"
  by (simp_all add: advance_def)

lemma advance_id [simp]: "advance lp s (files s) [] = s"
  by (simp add: advance_def)

lemma log_message_advance:
  assumes "distinct (map fst F)" "map_of F lp = Some (File c m)"
  shows "log_message lp msg (advance lp s F msgs) = (None, advance lp s F (msgs @ [msg]))"
  using logged_log_line [OF assms, of msgs "clock s" msg]
  by (simp add: log_message_def seq_def print_def fs_op_def advance_def)

lemma fs_op_advance:
  assumes "f (logged lp msgs (clock s) F) =
           (case f F of Inl e \<Rightarrow> Inl e | Inr F' \<Rightarrow> Inr (logged lp msgs (clock s) F'))"
  shows "fs_op f (advance lp s F msgs) =
     (case f F of Inl e \<Rightarrow> (Some e, advance lp s F msgs) | Inr F' \<Rightarrow> (None, advance lp s F' msgs))"
  using assms by (simp add: fs_op_def advance_def split: sum.splits)

subsection \<open>Two trees apart\<close>

lemma apart_append_neq: "apart a b \<Longrightarrow> a @ x \<noteq> b @ y"
  by (auto simp: apart_def append_eq_append_conv2 prefix_def)

lemma apart_not_prefix: "apart a b \<Longrightarrow> prefix a q \<Longrightarrow> \<not> prefix b q"
  using prefix_same_cases [of a q b] by (auto simp: apart_def)

lemma clear_apart: "apart source replica \<Longrightarrow> clear F source replica"
  unfolding clear_def
proof (intro allI impI)
  fix rel assume ap: "apart source replica"
  have "prefix source (source @ rel)" by simp
  from apart_not_prefix [OF ap this] show "\<not> strict_prefix replica (source @ rel)"
    by (simp add: strict_prefix_def)
qed

lemma clear_leaf:
  assumes "wf_fs F" "map_of F source \<noteq> Some Dir"
  shows "clear F source replica"
  unfolding clear_def
proof (intro allI impI)
  fix rel :: path assume "rel \<noteq> []" "map_of F (source @ rel) \<noteq> None"
  then obtain e where "map_of F (source @ rel) = Some e" by blast
  from wf_ancestor [OF assms(1) this \<open>rel \<noteq> []\<close>] assms(2)
  show "\<not> strict_prefix replica (source @ rel)" by simp
qed

lemma clear_filter: "clear F source replica \<Longrightarrow> clear (filter (\<lambda>(q, e). K q) F) source replica"
  by (auto simp: clear_def map_of_filter_key split: if_splits)

lemma filter_filter_key:
  "filter (\<lambda>(q, e). K2 q) (filter (\<lambda>(q, e). K1 q) F) = filter (\<lambda>(q, e). K1 q \<and> K2 q) F"
  by (induction F) auto

lemma filter_key_cong:
  "(\<And>q e. (q, e) \<in> set F \<Longrightarrow> K q = K' q) \<Longrightarrow>
     filter (\<lambda>(q, e). K q) F = filter (\<lambda>(q, e). K' q) F"
  by (induction F) auto

lemma prune_file_advance:
  assumes d: "distinct (map fst F)" and l: "map_of F lp = Some (File c0 m0)"
    and nl: "lp \<noteq> root @ [f]" and nr: "\<not> dotted root"
    and j: "os_path_join sp [f] = cf" and nc: "\<not> dotted cf"
  shows "prune_file lp root sp f (advance lp s F msgs) =
     (if map_of F cf = None then
        (case os_remove F (root @ [f]) of
           Inl e \<Rightarrow> (Some e, advance lp s F msgs)
         | Inr F' \<Rightarrow> (None, advance lp s F' (msgs @ [RemovedFile (root @ [f])])))
      else (None, advance lp s F msgs))"
proof -
  have jr: "os_path_join root [f] = root @ [f]" using nr by (rule os_path_join_plain)
  have ex: "os_path_exists (files (advance lp s F msgs)) cf \<longleftrightarrow> map_of F cf \<noteq> None"
    by (simp add: os_path_exists_plain [OF nc])
  have op: "fs_op (\<lambda>fs. os_remove fs (root @ [f])) (advance lp s F msgs) =
     (case os_remove F (root @ [f]) of
        Inl e \<Rightarrow> (Some e, advance lp s F msgs) | Inr F' \<Rightarrow> (None, advance lp s F' msgs))"
    by (rule fs_op_advance) (rule os_remove_logged)
  have lg: "log_message lp msg (advance lp s F' msgs) = (None, advance lp s F' (msgs @ [msg]))"
    if "os_remove F (root @ [f]) = Inr F'" for F' msg
  proof -
    from os_remove_Inr(2) [OF that] have F': "F' = filter (\<lambda>(q, e). q \<noteq> root @ [f]) F" .
    have "distinct (map fst F')" unfolding F' by (rule distinct_filter_keys [OF d])
    moreover have "map_of F' lp = Some (File c0 m0)"
      unfolding F' using l nl by (simp add: map_of_filter_key)
    ultimately show ?thesis by (rule log_message_advance)
  qed
  show ?thesis
  proof (cases "os_remove F (root @ [f])")
    case (Inl e)
    then show ?thesis unfolding prune_file_def Let_def jr j ex seq_def op by simp
  next
    case (Inr F')
    from lg [OF Inr] Inr show ?thesis unfolding prune_file_def Let_def jr j ex seq_def op by simp
  qed
qed

lemma prune_folder_advance:
  assumes d: "distinct (map fst F)" and l: "map_of F lp = Some (File c0 m0)"
    and nl: "\<not> prefix (root @ [x]) lp" and nr: "\<not> dotted root"
    and j: "os_path_join sp [x] = cf" and nc: "\<not> dotted cf"
  shows "prune_folder lp root sp x (advance lp s F msgs) =
     (if map_of F cf = None then
        (case shutil_rmtree F (root @ [x]) of
           Inl e \<Rightarrow> (Some e, advance lp s F msgs)
         | Inr F' \<Rightarrow> (None, advance lp s F' (msgs @ [RemovedFolder (root @ [x])])))
      else (None, advance lp s F msgs))"
proof -
  have jr: "os_path_join root [x] = root @ [x]" using nr by (rule os_path_join_plain)
  have ex: "os_path_exists (files (advance lp s F msgs)) cf \<longleftrightarrow> map_of F cf \<noteq> None"
    by (simp add: os_path_exists_plain [OF nc])
  have op: "fs_op (\<lambda>fs. shutil_rmtree fs (root @ [x])) (advance lp s F msgs) =
     (case shutil_rmtree F (root @ [x]) of
        Inl e \<Rightarrow> (Some e, advance lp s F msgs) | Inr F' \<Rightarrow> (None, advance lp s F' msgs))"
    by (rule fs_op_advance) (rule shutil_rmtree_logged)
  have lg: "log_message lp msg (advance lp s F' msgs) = (None, advance lp s F' (msgs @ [msg]))"
    if "shutil_rmtree F (root @ [x]) = Inr F'" for F' msg
  proof -
    from shutil_rmtree_Inr(2) [OF that] have F': "F' = filter (\<lambda>(q, e). \<not> prefix (root @ [x]) q) F" .
    have "distinct (map fst F')" unfolding F' by (rule distinct_filter_keys [OF d])
    moreover have "map_of F' lp = Some (File c0 m0)"
      unfolding F' using l nl by (simp add: map_of_filter_key)
    ultimately show ?thesis by (rule log_message_advance)
  qed
  show ?thesis
  proof (cases "shutil_rmtree F (root @ [x])")
    case (Inl e)
    then show ?thesis unfolding prune_folder_def Let_def jr j ex seq_def op by simp
  next
    case (Inr F')
    from lg [OF Inr] Inr show ?thesis unfolding prune_folder_def Let_def jr j ex seq_def op by simp
  qed
qed

lemma for_each_prune_file:
  assumes nr: "\<not> dotted root" and j: "\<And>f. os_path_join sp [f] = nsp @ [f]"
  shows "distinct ns \<Longrightarrow> distinct (map fst F) \<Longrightarrow> map_of F lp = Some (File c0 m0) \<Longrightarrow>
    (\<And>f. f \<in> set ns \<Longrightarrow> f \<noteq> ''.'' \<and> lp \<noteq> root @ [f] \<and> (\<exists>c m. map_of F (root @ [f]) = Some (File c m))) \<Longrightarrow>
    (\<And>f g. nsp @ [f] \<noteq> root @ [g] \<or> map_of F (nsp @ [f]) = None) \<Longrightarrow>
    for_each (prune_file lp root sp) ns (advance lp s F msgs) =
     (None, advance lp s
        (filter (\<lambda>(q, e). \<not> (\<exists>f \<in> set ns. q = root @ [f] \<and> map_of F (nsp @ [f]) = None)) F)
        (msgs @ map (\<lambda>f. RemovedFile (root @ [f])) (filter (\<lambda>f. map_of F (nsp @ [f]) = None) ns)))"
proof (induction ns arbitrary: F msgs)
  case Nil
  have "filter (\<lambda>(q, e). True) F = F" by (induction F) auto
  then show ?case by simp
next
  case (Cons f ns)
  note dn = Cons.prems(1) and dF = Cons.prems(2) and lF = Cons.prems(3) and fl = Cons.prems(4)
    and sep = Cons.prems(5)
  from fl [of f] obtain c m where fm: "map_of F (root @ [f]) = Some (File c m)"
    and fd: "f \<noteq> ''.''" and fl1: "lp \<noteq> root @ [f]" by auto
  have nc: "\<not> dotted (nsp @ [f])" using fd by simp
  note pa = prune_file_advance [OF dF lF fl1 nr j nc]
  show ?case
  proof (cases "map_of F (nsp @ [f]) = None")
    case False
    have "for_each (prune_file lp root sp) (f # ns) (advance lp s F msgs)
        = for_each (prune_file lp root sp) ns (advance lp s F msgs)"
      by (simp add: pa False)
    also have "\<dots> = (None, advance lp s
        (filter (\<lambda>(q, e). \<not> (\<exists>f \<in> set ns. q = root @ [f] \<and> map_of F (nsp @ [f]) = None)) F)
        (msgs @ map (\<lambda>f. RemovedFile (root @ [f])) (filter (\<lambda>f. map_of F (nsp @ [f]) = None) ns)))"
      using dn dF lF fl sep by (intro Cons.IH) auto
    also have "filter (\<lambda>(q, e). \<not> (\<exists>f \<in> set ns. q = root @ [f] \<and> map_of F (nsp @ [f]) = None)) F
       = filter (\<lambda>(q, e). \<not> (\<exists>g \<in> set (f # ns). q = root @ [g] \<and> map_of F (nsp @ [g]) = None)) F"
      using False by (intro filter_key_cong) auto
    finally show ?thesis by (simp add: False)
  next
    case True
    let ?F1 = "filter (\<lambda>(q, e). q \<noteq> root @ [f]) F"
    have m1: "map_of ?F1 q = (if q \<noteq> root @ [f] then map_of F q else None)" for q
      by (rule map_of_filter_key)
    have sp1: "map_of ?F1 (nsp @ [g]) = map_of F (nsp @ [g])" for g
      using sep [of g f] by (auto simp: m1)
    have "for_each (prune_file lp root sp) (f # ns) (advance lp s F msgs)
        = for_each (prune_file lp root sp) ns (advance lp s ?F1 (msgs @ [RemovedFile (root @ [f])]))"
      using True by (simp add: pa os_remove_ok [OF fm])
    also have "\<dots> = (None, advance lp s
        (filter (\<lambda>(q, e). \<not> (\<exists>g \<in> set ns. q = root @ [g] \<and> map_of ?F1 (nsp @ [g]) = None)) ?F1)
        ((msgs @ [RemovedFile (root @ [f])]) @
          map (\<lambda>g. RemovedFile (root @ [g])) (filter (\<lambda>g. map_of ?F1 (nsp @ [g]) = None) ns)))"
    proof (intro Cons.IH)
      show "distinct ns" using dn by simp
      show "distinct (map fst ?F1)" by (rule distinct_filter_keys [OF dF])
      show "map_of ?F1 lp = Some (File c0 m0)" using lF fl1 by (simp add: m1)
      show "g \<noteq> ''.'' \<and> lp \<noteq> root @ [g] \<and> (\<exists>c m. map_of ?F1 (root @ [g]) = Some (File c m))"
        if g: "g \<in> set ns" for g
      proof -
        have "g \<noteq> f" using g dn by auto
        with fl [of g] g show ?thesis by (simp add: m1)
      qed
      show "nsp @ [x] \<noteq> root @ [g] \<or> map_of ?F1 (nsp @ [x]) = None" for x g
        using sep [of x g] by (simp add: sp1)
    qed
    also have "filter (\<lambda>(q, e). \<not> (\<exists>g \<in> set ns. q = root @ [g] \<and> map_of ?F1 (nsp @ [g]) = None)) ?F1
       = filter (\<lambda>(q, e). \<not> (\<exists>g \<in> set (f # ns). q = root @ [g] \<and> map_of F (nsp @ [g]) = None)) F"
      unfolding sp1 filter_filter_key using True by (intro filter_key_cong) auto
    finally show ?thesis using True by (simp add: sp1)
  qed
qed

lemma for_each_prune_folder:
  assumes nr: "\<not> dotted root" and j: "\<And>f. os_path_join sp [f] = nsp @ [f]"
  shows "distinct ds \<Longrightarrow> distinct (map fst F) \<Longrightarrow> map_of F lp = Some (File c0 m0) \<Longrightarrow>
    (\<And>d. d \<in> set ds \<Longrightarrow> d \<noteq> ''.'' \<and> \<not> prefix (root @ [d]) lp \<and> map_of F (root @ [d]) = Some Dir) \<Longrightarrow>
    (\<And>f g. \<not> prefix (root @ [g]) (nsp @ [f]) \<or> map_of F (nsp @ [f]) = None) \<Longrightarrow>
    for_each (prune_folder lp root sp) ds (advance lp s F msgs) =
     (None, advance lp s
        (filter (\<lambda>(q, e). \<not> (\<exists>d \<in> set ds. prefix (root @ [d]) q \<and> map_of F (nsp @ [d]) = None)) F)
        (msgs @ map (\<lambda>d. RemovedFolder (root @ [d])) (filter (\<lambda>d. map_of F (nsp @ [d]) = None) ds)))"
proof (induction ds arbitrary: F msgs)
  case Nil
  have "filter (\<lambda>(q, e). True) F = F" by (induction F) auto
  then show ?case by simp
next
  case (Cons d ds)
  note dn = Cons.prems(1) and dF = Cons.prems(2) and lF = Cons.prems(3) and dr = Cons.prems(4)
    and sep = Cons.prems(5)
  from dr [of d] have dm: "map_of F (root @ [d]) = Some Dir"
    and dd: "d \<noteq> ''.''" and dl: "\<not> prefix (root @ [d]) lp" by auto
  have nc: "\<not> dotted (nsp @ [d])" using dd by simp
  note pa = prune_folder_advance [OF dF lF dl nr j nc]
  show ?case
  proof (cases "map_of F (nsp @ [d]) = None")
    case False
    have "for_each (prune_folder lp root sp) (d # ds) (advance lp s F msgs)
        = for_each (prune_folder lp root sp) ds (advance lp s F msgs)"
      by (simp add: pa False)
    also have "\<dots> = (None, advance lp s
        (filter (\<lambda>(q, e). \<not> (\<exists>d \<in> set ds. prefix (root @ [d]) q \<and> map_of F (nsp @ [d]) = None)) F)
        (msgs @ map (\<lambda>d. RemovedFolder (root @ [d])) (filter (\<lambda>d. map_of F (nsp @ [d]) = None) ds)))"
      using dn dF lF dr sep by (intro Cons.IH) auto
    also have "filter (\<lambda>(q, e). \<not> (\<exists>d \<in> set ds. prefix (root @ [d]) q \<and> map_of F (nsp @ [d]) = None)) F
       = filter (\<lambda>(q, e). \<not> (\<exists>g \<in> set (d # ds). prefix (root @ [g]) q \<and> map_of F (nsp @ [g]) = None)) F"
      using False by (intro filter_key_cong) auto
    finally show ?thesis by (simp add: False)
  next
    case True
    let ?F1 = "filter (\<lambda>(q, e). \<not> prefix (root @ [d]) q) F"
    have m1: "map_of ?F1 q = (if \<not> prefix (root @ [d]) q then map_of F q else None)" for q
      by (rule map_of_filter_key)
    have sp1: "map_of ?F1 (nsp @ [g]) = map_of F (nsp @ [g])" for g
      using sep [of d g] by (auto simp: m1)
    have "for_each (prune_folder lp root sp) (d # ds) (advance lp s F msgs)
        = for_each (prune_folder lp root sp) ds (advance lp s ?F1 (msgs @ [RemovedFolder (root @ [d])]))"
      using True by (simp add: pa shutil_rmtree_ok [OF dm])
    also have "\<dots> = (None, advance lp s
        (filter (\<lambda>(q, e). \<not> (\<exists>g \<in> set ds. prefix (root @ [g]) q \<and> map_of ?F1 (nsp @ [g]) = None)) ?F1)
        ((msgs @ [RemovedFolder (root @ [d])]) @
          map (\<lambda>g. RemovedFolder (root @ [g])) (filter (\<lambda>g. map_of ?F1 (nsp @ [g]) = None) ds)))"
    proof (intro Cons.IH)
      show "distinct ds" using dn by simp
      show "distinct (map fst ?F1)" by (rule distinct_filter_keys [OF dF])
      show "map_of ?F1 lp = Some (File c0 m0)" using lF dl by (simp add: m1)
      show "g \<noteq> ''.'' \<and> \<not> prefix (root @ [g]) lp \<and> map_of ?F1 (root @ [g]) = Some Dir"
        if g: "g \<in> set ds" for g
      proof -
        have "g \<noteq> d" using g dn by auto
        with dr [of g] g show ?thesis by (simp add: m1)
      qed
      show "\<not> prefix (root @ [g]) (nsp @ [x]) \<or> map_of ?F1 (nsp @ [x]) = None" for x g
        using sep [of g x] by (simp add: sp1)
    qed
    also have "filter (\<lambda>(q, e). \<not> (\<exists>g \<in> set ds. prefix (root @ [g]) q \<and> map_of ?F1 (nsp @ [g]) = None)) ?F1
       = filter (\<lambda>(q, e). \<not> (\<exists>g \<in> set (d # ds). prefix (root @ [g]) q \<and> map_of F (nsp @ [g]) = None)) F"
      unfolding sp1 filter_filter_key using True by (intro filter_key_cong) auto
    finally show ?thesis using True by (simp add: sp1)
  qed
qed

lemma counterpart_snoc:
  "prefix replica q \<Longrightarrow> counterpart source replica (q @ [x]) = counterpart source replica q @ [x]"
  by (auto simp: counterpart_def prefix_def)

lemma counterpart_append:
  "counterpart source replica (replica @ rel) = source @ rel"
  by (simp add: counterpart_def)

lemma prefix_counterpart: "prefix source (counterpart source replica q)"
  by (simp add: counterpart_def)

lemma strict_prefix_split: "strict_prefix tp q \<Longrightarrow> \<exists>x r. q = tp @ x # r"
proof -
  assume "strict_prefix tp q"
  then obtain r where "q = tp @ r" "r \<noteq> []" by (auto simp: strict_prefix_def prefix_def)
  then show ?thesis by (cases r) auto
qed

lemma orphan_filter:
  assumes "clear F source replica" "\<And>q. X q \<Longrightarrow> strict_prefix replica q" "strict_prefix replica p"
  shows "orphan (filter (\<lambda>(q, e). \<not> X q) F) source replica p = orphan F source replica p"
proof -
  from strict_prefix_split [OF assms(3)] obtain x r where p: "p = replica @ x # r" by blast
  have cp: "counterpart source replica p = source @ x # r" unfolding p by (rule counterpart_append)
  show ?thesis
  proof (cases "map_of F (source @ x # r) = None")
    case True
    then show ?thesis by (simp add: orphan_def cp map_of_filter_key)
  next
    case False
    with assms(1) have "\<not> strict_prefix replica (source @ x # r)" by (simp add: clear_def)
    with assms(2) have "\<not> X (source @ x # r)" by blast
    then show ?thesis by (simp add: orphan_def cp map_of_filter_key)
  qed
qed

lemma orphan_parent:
  assumes "wf_fs F" "prefix replica q" "orphan F source replica q"
  shows "orphan F source replica (q @ [x])"
proof -
  have "map_of F (counterpart source replica q @ [x]) = None"
  proof (rule ccontr)
    assume "map_of F (counterpart source replica q @ [x]) \<noteq> None"
    then obtain e where "map_of F (counterpart source replica q @ [x]) = Some e" by blast
    from wf_parent [OF assms(1) this] assms(3) show False
      by (simp add: orphan_def)
  qed
  then show ?thesis using assms(2) by (simp add: orphan_def counterpart_snoc)
qed

lemma orphan_descendant:
  assumes "wf_fs F" "prefix replica q" "orphan F source replica q"
  shows "orphan F source replica (q @ r)"
proof (induction r rule: rev_induct)
  case Nil
  then show ?case using assms(3) by simp
next
  case (snoc x r)
  have "prefix replica (q @ r)" using assms(2) by (rule prefix_prefix)
  from orphan_parent [OF assms(1) this snoc] show ?case by simp
qed

lemma source_path_join:
  assumes "\<not> dotted source" "plain rel"
  shows "os_path_join (os_path_join source (os_path_relpath (replica @ rel) replica)) [x]
         = source @ rel @ [x]"
proof (cases "rel = []")
  case True
  then show ?thesis using assms(1) by (simp add: os_path_relpath_def os_path_join_def)
next
  case False
  then have "\<not> dotted (source @ rel)"
    using plain_not_dotted [OF assms(2)] by (simp add: dotted_def)
  with False assms(1) show ?thesis by (simp add: os_path_relpath_def os_path_join_def)
qed

lemma reverse_body_closed:
  assumes cl: "clear F source replica" and nds: "\<not> dotted source"
    and wf: "wf_fs F" and plr: "plain (replica @ rel)"
    and dn: "distinct ns" and dd: "distinct ds"
    and fl: "\<And>f. f \<in> set ns \<Longrightarrow> \<exists>c m. map_of F (replica @ rel @ [f]) = Some (File c m)"
    and dr: "\<And>d. d \<in> set ds \<Longrightarrow> map_of F (replica @ rel @ [d]) = Some Dir"
    and lf: "map_of F lp = Some (File c0 m0)" and nl: "\<not> prefix replica lp"
  shows "reverse_body source replica lp (replica @ rel, ds, ns) (advance lp s F msgs) =
     (None, advance lp s
        (filter (\<lambda>(q, e).
            \<not> (\<exists>f \<in> set ns. q = replica @ rel @ [f] \<and> orphan F source replica (replica @ rel @ [f])) \<and>
            \<not> (\<exists>d \<in> set ds. prefix (replica @ rel @ [d]) q \<and> orphan F source replica (replica @ rel @ [d]))) F)
        (msgs @ map (\<lambda>f. RemovedFile (replica @ rel @ [f]))
                  (filter (\<lambda>f. orphan F source replica (replica @ rel @ [f])) ns)
              @ map (\<lambda>d. RemovedFolder (replica @ rel @ [d]))
                  (filter (\<lambda>d. orphan F source replica (replica @ rel @ [d])) ds)))"
proof -
  let ?root = "replica @ rel"
  let ?sp = "os_path_join source (os_path_relpath ?root replica)"
  let ?nsp = "source @ rel"
  have nr: "\<not> dotted ?root" using plr by (rule plain_not_dotted)
  have prel: "plain rel" using plr by simp
  have j: "os_path_join ?sp [x] = ?nsp @ [x]" for x
    using source_path_join [OF nds prel, of replica x] by simp
  have dF: "distinct (map fst F)" using wf by (rule wf_distinct)
  have orph: "orphan G source replica (replica @ rel @ [x]) \<longleftrightarrow> map_of G (?nsp @ [x]) = None" for G x
    using counterpart_append [of source replica "rel @ [x]"] by (simp add: orphan_def)
  have below: "strict_prefix replica (?root @ [g])" for g
    by (simp add: strict_prefix_def prefix_def)
  have np: "\<not> prefix (?root @ [g]) (?nsp @ [f]) \<or> map_of G (?nsp @ [f]) = None"
    if "clear G source replica" for f g G
  proof (cases "map_of G (?nsp @ [f]) = None")
    case False
    with that have n: "\<not> strict_prefix replica (source @ (rel @ [f]))"
      unfolding clear_def by (metis append_assoc snoc_eq_iff_butlast)
    have "\<not> prefix (?root @ [g]) (?nsp @ [f])"
    proof
      assume "prefix (?root @ [g]) (?nsp @ [f])"
      with below [of g] have "strict_prefix replica (?nsp @ [f])"
        by (rule prefix_order.strict_trans2)
      with n show False by simp
    qed
    then show ?thesis ..
  qed simp
  have ne: "?nsp @ [f] \<noteq> ?root @ [g] \<or> map_of F (?nsp @ [f]) = None" for f g
    using np [OF cl, of g f] by auto
  have fl': "f \<noteq> ''.'' \<and> lp \<noteq> ?root @ [f] \<and> (\<exists>c m. map_of F (?root @ [f]) = Some (File c m))"
    if "f \<in> set ns" for f
  proof -
    from fl [OF that] obtain c m where e: "map_of F (replica @ rel @ [f]) = Some (File c m)" by blast
    from wf_plain [OF wf e] have "f \<noteq> ''.''" by simp
    moreover have "lp \<noteq> ?root @ [f]" using nl by (auto simp: prefix_def)
    ultimately show ?thesis using e by simp
  qed
  let ?F1 = "filter (\<lambda>(q, e). \<not> (\<exists>f \<in> set ns. q = ?root @ [f] \<and> map_of F (?nsp @ [f]) = None)) F"
  have files: "for_each (prune_file lp ?root ?sp) ns (advance lp s F msgs) =
     (None, advance lp s ?F1
        (msgs @ map (\<lambda>f. RemovedFile (?root @ [f])) (filter (\<lambda>f. map_of F (?nsp @ [f]) = None) ns)))"
    by (rule for_each_prune_file [OF nr j dn dF lf fl' ne])
  have m1: "map_of ?F1 q =
      (if \<not> (\<exists>f \<in> set ns. q = ?root @ [f] \<and> map_of F (?nsp @ [f]) = None) then map_of F q else None)" for q
    by (rule map_of_filter_key)
  have sp1: "map_of ?F1 (?nsp @ [g]) = map_of F (?nsp @ [g])" for g
    by (subst m1) (use ne in auto)
  have dr1: "d \<noteq> ''.'' \<and> \<not> prefix (?root @ [d]) lp \<and> map_of ?F1 (?root @ [d]) = Some Dir"
    if "d \<in> set ds" for d
  proof -
    have e: "map_of F (replica @ rel @ [d]) = Some Dir" by (rule dr [OF that])
    have "d \<notin> set ns" using e fl [of d] by auto
    then have "map_of ?F1 (?root @ [d]) = Some Dir" by (subst m1) (use e in auto)
    moreover from wf_plain [OF wf e] have "d \<noteq> ''.''" by simp
    moreover have "\<not> prefix (?root @ [d]) lp" using nl by (auto simp: prefix_def)
    ultimately show ?thesis by simp
  qed
  have dF1: "distinct (map fst ?F1)" by (rule distinct_filter_keys [OF dF])
  have lf1: "map_of ?F1 lp = Some (File c0 m0)"
    by (subst m1) (use lf nl in \<open>auto simp: prefix_def\<close>)
  have cl1: "clear ?F1 source replica" by (rule clear_filter [OF cl])
  have folders: "for_each (prune_folder lp ?root ?sp) ds (advance lp s ?F1 msgs') =
     (None, advance lp s
        (filter (\<lambda>(q, e). \<not> (\<exists>d \<in> set ds. prefix (?root @ [d]) q \<and> map_of ?F1 (?nsp @ [d]) = None)) ?F1)
        (msgs' @ map (\<lambda>d. RemovedFolder (?root @ [d])) (filter (\<lambda>d. map_of ?F1 (?nsp @ [d]) = None) ds)))"
    for msgs'
    by (rule for_each_prune_folder [OF nr j dd dF1 lf1 dr1 np [OF cl1]])
  have rb: "reverse_body source replica lp (?root, ds, ns) =
      seq (for_each (prune_file lp ?root ?sp) ns) (for_each (prune_folder lp ?root ?sp) ds)"
    by (simp add: reverse_body_def Let_def)
  have "reverse_body source replica lp (?root, ds, ns) (advance lp s F msgs) =
     (None, advance lp s
        (filter (\<lambda>(q, e). \<not> (\<exists>d \<in> set ds. prefix (?root @ [d]) q \<and> map_of ?F1 (?nsp @ [d]) = None)) ?F1)
        ((msgs @ map (\<lambda>f. RemovedFile (?root @ [f])) (filter (\<lambda>f. map_of F (?nsp @ [f]) = None) ns))
          @ map (\<lambda>d. RemovedFolder (?root @ [d])) (filter (\<lambda>d. map_of ?F1 (?nsp @ [d]) = None) ds)))"
    unfolding rb seq_def files by (simp only: prod.case option.case folders)
  then show ?thesis unfolding sp1 filter_filter_key orph by simp
qed

lemma doomed_prefix: "prefix replica tp \<Longrightarrow> doomed F source replica tp q \<Longrightarrow> prefix replica q"
  by (auto simp: doomed_def strict_prefix_def dest: prefix_order.trans)

lemma doomed_butlast:
  assumes "wf_fs F" "prefix replica tp" "q \<noteq> []" "doomed F source replica tp (butlast q)"
  shows "doomed F source replica tp q"
proof -
  have q: "q = butlast q @ [last q]" using assms(3) by simp
  have sp: "strict_prefix tp (butlast q)" and orp: "orphan F source replica (butlast q)"
    using assms(4) by (simp_all add: doomed_def)
  have "prefix replica (butlast q)" using doomed_prefix [OF assms(2,4)] .
  from orphan_parent [OF assms(1) this orp, of "last q"] have "orphan F source replica q"
    using assms(3) by simp
  moreover have "strict_prefix tp q"
    using sp q by (metis prefix_order.less_le_trans prefixI)
  ultimately show ?thesis by (simp add: doomed_def)
qed

lemma doomed_set_wf:
  assumes "wf_fs F" "\<And>t. t \<in> T \<Longrightarrow> prefix replica t"
  shows "wf_fs (filter (\<lambda>(q, e). \<not> (\<exists>t \<in> T. doomed F source replica t q)) F)"
proof (rule wf_filter [OF assms(1)])
  show "\<not> (\<exists>t \<in> T. doomed F source replica t [])" by (simp add: doomed_def)
  fix q assume "q \<noteq> []" "map_of F q \<noteq> None" "\<not> (\<exists>t \<in> T. doomed F source replica t q)"
  then show "\<not> (\<exists>t \<in> T. doomed F source replica t (butlast q))"
    using doomed_butlast [OF assms(1) assms(2)] by blast
qed

lemma doomed_strict: "prefix replica tp \<Longrightarrow> doomed F source replica tp q \<Longrightarrow> strict_prefix replica q"
  by (auto simp: doomed_def dest: prefix_order.le_less_trans)

lemma orphan_doomed_filter:
  assumes "clear F source replica" "\<And>t. t \<in> T \<Longrightarrow> prefix replica t" "strict_prefix replica p"
  shows "orphan (filter (\<lambda>(q, e). \<not> (\<exists>t \<in> T. doomed F source replica t q)) F) source replica p
         = orphan F source replica p"
proof (rule orphan_filter [OF assms(1) _ assms(3)])
  fix q assume "\<exists>t \<in> T. doomed F source replica t q"
  then show "strict_prefix replica q" using doomed_strict assms(2) by blast
qed

lemma doomed_doomed_filter:
  assumes "clear F source replica" "\<And>t. t \<in> T \<Longrightarrow> prefix replica t" "prefix replica tp"
  shows "doomed (filter (\<lambda>(q, e). \<not> (\<exists>t \<in> T. doomed F source replica t q)) F) source replica tp p
         = doomed F source replica tp p"
proof (cases "strict_prefix tp p")
  case True
  with assms(3) have sp: "strict_prefix replica p" by (rule prefix_order.le_less_trans)
  have "orphan (filter (\<lambda>(q, e). \<not> (\<exists>t \<in> T. doomed F source replica t q)) F) source replica p
         = orphan F source replica p"
  proof (rule orphan_doomed_filter [OF assms(1) _ sp])
    fix t assume "t \<in> T" then show "prefix replica t" by (rule assms(2))
  qed
  then show ?thesis by (simp only: doomed_def [where tp = tp and q = p])
next
  case False
  then show ?thesis by (simp only: doomed_def [where tp = tp and q = p] simp_thms)
qed

lemma siblings_disjoint:
  "d \<noteq> d' \<Longrightarrow> prefix (tp @ [d]) q \<Longrightarrow> \<not> prefix (tp @ [d']) q"
  by (auto simp: prefix_def)

lemma removals_sibling:
  assumes ap: "clear F source replica" and pre: "prefix replica tp" and ne: "d \<noteq> d'"
  shows "removals (filter (\<lambda>(q, e). \<not> doomed F source replica (tp @ [d]) q) F) source replica (tp @ [d'])
         = removals F source replica (tp @ [d'])"
proof -
  let ?F1 = "filter (\<lambda>(q, e). \<not> doomed F source replica (tp @ [d]) q) F"
  have F1: "?F1 = filter (\<lambda>(q, e). \<not> (\<exists>t \<in> {tp @ [d]}. doomed F source replica t q)) F" by simp
  have T: "\<And>t. t \<in> {tp @ [d]} \<Longrightarrow> prefix replica t" using pre by (auto intro: prefix_prefix)
  have pre': "prefix replica (tp @ [d'])" using pre by (rule prefix_prefix)
  have dd: "doomed ?F1 source replica (tp @ [d']) q = doomed F source replica (tp @ [d']) q" for q
    unfolding F1
  proof (rule doomed_doomed_filter [OF ap _ pre'])
    fix t assume "t \<in> {tp @ [d]}" then show "prefix replica t" by (rule T)
  qed
  have mm: "map_of ?F1 q = map_of F q" if "doomed F source replica (tp @ [d']) q" for q
  proof -
    have "prefix (tp @ [d']) q" using that by (simp add: doomed_def strict_prefix_def)
    then have "\<not> prefix (tp @ [d]) q" using siblings_disjoint [of d' d tp q] ne by blast
    then have "\<not> doomed F source replica (tp @ [d]) q" by (simp add: doomed_def strict_prefix_def)
    then show ?thesis by (simp add: map_of_filter_key)
  qed
  show ?thesis unfolding removals_def dd using mm by auto
qed

lemma doomed_split:
  assumes wf: "wf_fs F" and pre: "prefix replica tp"
    and dsc: "\<And>d. d \<in> set ds \<longleftrightarrow> map_of F (tp @ [d]) = Some Dir"
    and nsc: "\<And>f. f \<in> set ns \<longleftrightarrow> (\<exists>c m. map_of F (tp @ [f]) = Some (File c m))"
    and q: "map_of F q = Some e"
  shows "doomed F source replica tp q \<longleftrightarrow>
     (\<exists>d \<in> set ds. doomed F source replica (tp @ [d]) q) \<or>
     (\<exists>f \<in> set ns. q = tp @ [f] \<and> orphan F source replica (tp @ [f])) \<or>
     (\<exists>d \<in> set ds. prefix (tp @ [d]) q \<and> orphan F source replica (tp @ [d]))"
proof
  assume d: "doomed F source replica tp q"
  then have sp: "strict_prefix tp q" and orp: "orphan F source replica q" by (simp_all add: doomed_def)
  from strict_prefix_split [OF sp] obtain x r where qx: "q = tp @ x # r" by blast
  show "(\<exists>d \<in> set ds. doomed F source replica (tp @ [d]) q) \<or>
     (\<exists>f \<in> set ns. q = tp @ [f] \<and> orphan F source replica (tp @ [f])) \<or>
     (\<exists>d \<in> set ds. prefix (tp @ [d]) q \<and> orphan F source replica (tp @ [d]))"
  proof (cases "r = []")
    case True
    then have qq: "q = tp @ [x]" using qx by simp
    show ?thesis
    proof (cases e)
      case (File c m)
      then have "x \<in> set ns" using q qq nsc by auto
      with qq orp show ?thesis by blast
    next
      case Dir
      then have "x \<in> set ds" using q qq dsc by auto
      with qq orp show ?thesis by auto
    qed
  next
    case False
    have "map_of F ((tp @ [x]) @ r) = Some e" using q qx by simp
    from wf_ancestor [OF wf this False] have "x \<in> set ds" using dsc by simp
    moreover have "strict_prefix (tp @ [x]) q" using qx False by (auto simp: strict_prefix_def)
    ultimately show ?thesis using orp by (auto simp: doomed_def)
  qed
next
  assume a: "(\<exists>d \<in> set ds. doomed F source replica (tp @ [d]) q) \<or>
     (\<exists>f \<in> set ns. q = tp @ [f] \<and> orphan F source replica (tp @ [f])) \<or>
     (\<exists>d \<in> set ds. prefix (tp @ [d]) q \<and> orphan F source replica (tp @ [d]))"
  have up: "strict_prefix tp q" if "prefix (tp @ [d]) q" for d
    using that by (auto simp: strict_prefix_def prefix_def)
  from a consider
      (1) d where "doomed F source replica (tp @ [d]) q"
    | (2) f where "q = tp @ [f]" "orphan F source replica (tp @ [f])"
    | (3) d where "prefix (tp @ [d]) q" "orphan F source replica (tp @ [d])"
    by blast
  then show "doomed F source replica tp q"
  proof cases
    case 1
    then show ?thesis using up [of d] by (auto simp: doomed_def strict_prefix_def)
  next
    case 2
    then show ?thesis by (auto simp: doomed_def strict_prefix_def)
  next
    case 3
    then obtain r where r: "q = (tp @ [d]) @ r" by (auto simp: prefix_def)
    have "prefix replica (tp @ [d])" using pre by (rule prefix_prefix)
    from orphan_descendant [OF wf this 3(2), of r] r have "orphan F source replica q" by simp
    with up [OF 3(1)] show ?thesis by (simp add: doomed_def)
  qed
qed

lemma removals_split:
  assumes wf: "wf_fs F" and pre: "prefix replica tp"
    and dsc: "\<And>d. d \<in> set ds \<longleftrightarrow> map_of F (tp @ [d]) = Some Dir"
    and nsc: "\<And>f. f \<in> set ns \<longleftrightarrow> (\<exists>c m. map_of F (tp @ [f]) = Some (File c m))"
  shows "removals F source replica tp =
     (\<Union>d \<in> set ds. removals F source replica (tp @ [d])) \<union>
     (\<lambda>f. RemovedFile (tp @ [f])) ` {f \<in> set ns. orphan F source replica (tp @ [f])} \<union>
     (\<lambda>d. RemovedFolder (tp @ [d])) ` {d \<in> set ds. orphan F source replica (tp @ [d])}"
    (is "?L = ?R")
proof (rule set_eqI)
  fix msg
  note split = doomed_split [OF wf pre dsc nsc]
  have len: "\<not> strict_prefix (tp @ [d]) (tp @ [x])" for d x
    by (auto simp: strict_prefix_def prefix_def)
  have same: "prefix (tp @ [d]) (tp @ [x]) \<longleftrightarrow> d = x" for d x
    by (auto simp: prefix_def)
  show "msg \<in> ?L \<longleftrightarrow> msg \<in> ?R"
  proof
    assume "msg \<in> ?L"
    then consider
        (rfile) q c m where "msg = RemovedFile q" "doomed F source replica tp q"
          "map_of F q = Some (File c m)"
      | (rfolder) q where "msg = RemovedFolder q" "doomed F source replica tp q"
          "map_of F q = Some Dir"
      by (auto simp: removals_def)
    then show "msg \<in> ?R"
    proof cases
      case rfile
      from split [OF rfile(3)] rfile(2) consider
          (1) d where "d \<in> set ds" "doomed F source replica (tp @ [d]) q"
        | (2) f where "f \<in> set ns" "q = tp @ [f]" "orphan F source replica (tp @ [f])"
        | (3) d where "d \<in> set ds" "prefix (tp @ [d]) q" "orphan F source replica (tp @ [d])"
        by blast
      then show ?thesis
      proof cases
        case 1
        then have "msg \<in> removals F source replica (tp @ [d])"
          using rfile by (auto simp: removals_def)
        with 1(1) show ?thesis by blast
      next
        case 2
        then show ?thesis using rfile(1) by blast
      next
        case 3
        show ?thesis
        proof (cases "q = tp @ [d]")
          case True
          with 3(1) dsc rfile(3) show ?thesis by simp
        next
          case False
          with 3(2) have "strict_prefix (tp @ [d]) q" by (simp add: strict_prefix_def)
          moreover have "orphan F source replica q"
            using rfile(2) by (simp add: doomed_def)
          ultimately have "msg \<in> removals F source replica (tp @ [d])"
            using rfile by (auto simp: removals_def doomed_def)
          with 3(1) show ?thesis by blast
        qed
      qed
    next
      case rfolder
      from split [OF rfolder(3)] rfolder(2) consider
          (1) d where "d \<in> set ds" "doomed F source replica (tp @ [d]) q"
        | (2) f where "f \<in> set ns" "q = tp @ [f]" "orphan F source replica (tp @ [f])"
        | (3) d where "d \<in> set ds" "prefix (tp @ [d]) q" "orphan F source replica (tp @ [d])"
        by blast
      then show ?thesis
      proof cases
        case 1
        then have "msg \<in> removals F source replica (tp @ [d])"
          using rfolder by (auto simp: removals_def)
        with 1(1) show ?thesis by blast
      next
        case 2
        with nsc rfolder(3) show ?thesis by auto
      next
        case 3
        show ?thesis
        proof (cases "q = tp @ [d]")
          case True
          with 3 rfolder(1) show ?thesis by blast
        next
          case False
          with 3(2) have "strict_prefix (tp @ [d]) q" by (simp add: strict_prefix_def)
          moreover have "orphan F source replica q"
            using rfolder(2) by (simp add: doomed_def)
          ultimately have "msg \<in> removals F source replica (tp @ [d])"
            using rfolder by (auto simp: removals_def doomed_def)
          with 3(1) show ?thesis by blast
        qed
      qed
    qed
  next
    assume "msg \<in> ?R"
    then consider
        (1) d where "d \<in> set ds" "msg \<in> removals F source replica (tp @ [d])"
      | (2) f where "f \<in> set ns" "orphan F source replica (tp @ [f])" "msg = RemovedFile (tp @ [f])"
      | (3) d where "d \<in> set ds" "orphan F source replica (tp @ [d])" "msg = RemovedFolder (tp @ [d])"
      by blast
    then show "msg \<in> ?L"
    proof cases
      case 1
      have "doomed F source replica tp q" if "doomed F source replica (tp @ [d]) q" for q
        using that by (auto simp: doomed_def strict_prefix_def prefix_def)
      with 1(2) show ?thesis by (auto simp: removals_def)
    next
      case 2
      from 2(1) nsc obtain c m where "map_of F (tp @ [f]) = Some (File c m)" by blast
      moreover have "doomed F source replica tp (tp @ [f])"
        using 2(2) by (simp add: doomed_def strict_prefix_def)
      ultimately show ?thesis using 2(3) by (auto simp: removals_def)
    next
      case 3
      from 3(1) dsc have "map_of F (tp @ [d]) = Some Dir" by blast
      moreover have "doomed F source replica tp (tp @ [d])"
        using 3(2) by (simp add: doomed_def strict_prefix_def)
      ultimately show ?thesis using 3(3) by (auto simp: removals_def)
    qed
  qed
qed

lemma filter_key_True [simp]: "filter (\<lambda>(q, e). True) F = F"
  by (induction F) auto

lemma leaf_no_descendants:
  assumes "wf_fs F" "map_of F tp \<noteq> Some Dir" "map_of F q = Some e"
  shows "\<not> strict_prefix tp q"
proof
  assume "strict_prefix tp q"
  then obtain x r where "q = tp @ x # r" using strict_prefix_split by blast
  with wf_ancestor [OF assms(1), of tp "x # r" e] assms(2,3) show False by simp
qed

lemma leaf_filter:
  assumes "wf_fs F" "map_of F tp \<noteq> Some Dir"
  shows "filter (\<lambda>(q, e). \<not> doomed F source replica tp q) F = F"
    and "removals F source replica tp = {}"
proof -
  have d: "distinct (map fst F)" using assms(1) by (simp add: wf_fs_iff)
  have nd: "\<not> doomed F source replica tp q" if "map_of F q = Some e" for q e
    using leaf_no_descendants [OF assms that] by (simp add: doomed_def)
  have "\<not> doomed F source replica tp q" if "(q, e) \<in> set F" for q e
    using nd [OF map_of_is_SomeI [OF d that]] .
  then show "filter (\<lambda>(q, e). \<not> doomed F source replica tp q) F = F"
    by (auto simp: filter_id_conv)
  show "removals F source replica tp = {}"
    using nd by (auto simp: removals_def)
qed

lemma removals_disjoint:
  "d \<noteq> d' \<Longrightarrow> removals G source replica (tp @ [d]) \<inter> removals G source replica (tp @ [d']) = {}"
  by (auto simp: removals_def doomed_def strict_prefix_def dest: siblings_disjoint)

lemma removals_not_child:
  "RemovedFile (tp @ [x]) \<notin> removals G source replica (tp @ [d])"
  "RemovedFolder (tp @ [x]) \<notin> removals G source replica (tp @ [d])"
  by (auto simp: removals_def doomed_def strict_prefix_def prefix_def)


lemma reverse_walk_dirs_step:
  assumes nds: "\<not> dotted source" and nl: "\<not> prefix replica lp"
    and pre: "prefix replica tp" and ptp: "plain tp"
    and IH: "\<And>tp' G msgs'. wf_fs G \<Longrightarrow> clear G source replica \<Longrightarrow>
       map_of G lp = Some (File c0 m0) \<Longrightarrow> prefix replica tp' \<Longrightarrow> plain tp' \<Longrightarrow>
       depth G < n + length tp' \<Longrightarrow>
       \<exists>new. os_walk n False (reverse_body source replica lp) tp' (advance lp s G msgs') =
            Some (None, advance lp s (filter (\<lambda>(q, e). \<not> doomed G source replica tp' q) G) (msgs' @ new))
          \<and> distinct new \<and> set new = removals G source replica tp'"
  shows "wf_fs G \<Longrightarrow> clear G source replica \<Longrightarrow> map_of G lp = Some (File c0 m0) \<Longrightarrow>
     distinct xs \<Longrightarrow> (\<And>d. d \<in> set xs \<Longrightarrow> d \<noteq> ''.'') \<Longrightarrow> depth G \<le> n + length tp \<Longrightarrow>
     \<exists>new. os_walk_dirs n False (reverse_body source replica lp) tp xs (advance lp s G msgs') =
          Some (None, advance lp s
            (filter (\<lambda>(q, e). \<not> (\<exists>d \<in> set xs. doomed G source replica (tp @ [d]) q)) G)
            (msgs' @ new))
        \<and> distinct new \<and> set new = (\<Union>d \<in> set xs. removals G source replica (tp @ [d]))"
proof (induction xs arbitrary: G msgs')
  case Nil
  show ?case by (rule exI [of _ "[]"]) simp
next
  case (Cons d xs)
  note wfG = Cons.prems(1) and clG = Cons.prems(2) and lG = Cons.prems(3) and dxs = Cons.prems(4)
    and nm = Cons.prems(5) and dep = Cons.prems(6)
  let ?B = "reverse_body source replica lp"
  let ?G1 = "filter (\<lambda>(q, e). \<not> doomed G source replica (tp @ [d]) q) G"
  have jn: "os_path_join tp [d] = tp @ [d]"
    using plain_not_dotted [OF ptp] by (rule os_path_join_plain)
  have p1: "prefix replica (tp @ [d])" using pre by (rule prefix_prefix)
  have pl1: "plain (tp @ [d])" using ptp nm [of d] by simp
  have f1: "depth G < n + length (tp @ [d])" using dep by simp
  from IH [OF wfG clG lG p1 pl1 f1, of msgs'] obtain new1 where
    w1: "os_walk n False ?B (tp @ [d]) (advance lp s G msgs') = Some (None, advance lp s ?G1 (msgs' @ new1))"
    and d1: "distinct new1" and s1: "set new1 = removals G source replica (tp @ [d])" by blast
  have G1eq: "?G1 = filter (\<lambda>(q, e). \<not> (\<exists>t \<in> {tp @ [d]}. doomed G source replica t q)) G" by simp
  have T: "\<And>t. t \<in> {tp @ [d]} \<Longrightarrow> prefix replica t" using p1 by simp
  have wf1: "wf_fs ?G1" unfolding G1eq by (rule doomed_set_wf [OF wfG T])
  have cl1: "clear ?G1 source replica" by (rule clear_filter [OF clG])
  have l1: "map_of ?G1 lp = Some (File c0 m0)"
  proof -
    have "\<not> doomed G source replica (tp @ [d]) lp" using doomed_prefix [OF p1] nl by blast
    then show ?thesis using lG by (simp add: map_of_filter_key)
  qed
  have dp1: "depth ?G1 \<le> n + length tp"
    using depth_filter [of "\<lambda>(q, e). \<not> doomed G source replica (tp @ [d]) q" G] dep
    by simp
  have dx: "distinct xs" using dxs by simp
  have nm': "\<And>d. d \<in> set xs \<Longrightarrow> d \<noteq> ''.''" using nm by simp
  from Cons.IH [OF wf1 cl1 l1 dx nm' dp1, of "msgs' @ new1"] obtain new2 where
    w2: "os_walk_dirs n False ?B tp xs (advance lp s ?G1 (msgs' @ new1)) =
          Some (None, advance lp s
            (filter (\<lambda>(q, e). \<not> (\<exists>d' \<in> set xs. doomed ?G1 source replica (tp @ [d']) q)) ?G1)
            ((msgs' @ new1) @ new2))"
    and d2: "distinct new2"
    and s2: "set new2 = (\<Union>d' \<in> set xs. removals ?G1 source replica (tp @ [d']))" by blast
  have dd: "doomed ?G1 source replica (tp @ [d']) q = doomed G source replica (tp @ [d']) q" for d' q
    unfolding G1eq
  proof (rule doomed_doomed_filter [OF clG])
    fix t assume "t \<in> {tp @ [d]}" then show "prefix replica t" by (rule T)
  next
    show "prefix replica (tp @ [d'])" by (rule prefix_prefix [OF pre])
  qed
  have feq: "filter (\<lambda>(q, e). \<not> (\<exists>d' \<in> set xs. doomed ?G1 source replica (tp @ [d']) q)) ?G1
      = filter (\<lambda>(q, e). \<not> (\<exists>d' \<in> set (d # xs). doomed G source replica (tp @ [d']) q)) G"
    unfolding dd filter_filter_key by (intro filter_key_cong) auto
  have rs: "removals ?G1 source replica (tp @ [d']) = removals G source replica (tp @ [d'])"
    if "d' \<in> set xs" for d'
  proof -
    have "d \<noteq> d'" using that dxs by auto
    then show ?thesis by (rule removals_sibling [OF clG pre])
  qed
  have s2': "set new2 = (\<Union>d' \<in> set xs. removals G source replica (tp @ [d']))"
    using s2 rs by simp
  have disj: "set new1 \<inter> set new2 = {}"
  proof -
    have "removals G source replica (tp @ [d]) \<inter> removals G source replica (tp @ [d']) = {}"
      if "d' \<in> set xs" for d'
    proof -
      have "d \<noteq> d'" using that dxs by auto
      then show ?thesis by (rule removals_disjoint)
    qed
    then show ?thesis unfolding s1 s2' by blast
  qed
  have run: "os_walk_dirs n False ?B tp (d # xs) (advance lp s G msgs') =
      Some (None, advance lp s
        (filter (\<lambda>(q, e). \<not> (\<exists>d' \<in> set (d # xs). doomed G source replica (tp @ [d']) q)) G)
        (msgs' @ (new1 @ new2)))"
    using w1 w2 unfolding feq by (simp add: jn)
  have "distinct (new1 @ new2)" using d1 d2 disj by simp
  moreover have "set (new1 @ new2) = (\<Union>d' \<in> set (d # xs). removals G source replica (tp @ [d']))"
    using s1 s2' by auto
  ultimately show ?case using run by blast
qed

lemma distinct_map_filter_inj:
  assumes "distinct xs" "inj f"
  shows "distinct (map f (filter P xs))"
  using assms by (simp add: distinct_map inj_on_def inj_def)

lemma reverse_walk_closed:
  assumes nds: "\<not> dotted source" and nl: "\<not> prefix replica lp"
  shows "wf_fs F \<Longrightarrow> clear F source replica \<Longrightarrow> map_of F lp = Some (File c0 m0) \<Longrightarrow>
     prefix replica tp \<Longrightarrow> plain tp \<Longrightarrow> depth F < n + length tp \<Longrightarrow>
     \<exists>new. os_walk n False (reverse_body source replica lp) tp (advance lp s F msgs) =
          Some (None, advance lp s (filter (\<lambda>(q, e). \<not> doomed F source replica tp q) F) (msgs @ new))
        \<and> distinct new \<and> set new = removals F source replica tp"
proof (induction n arbitrary: tp F msgs)
  case 0
  have ndt: "\<not> dotted tp" using "0.prems"(5) by (rule plain_not_dotted)
  have nd: "map_of F tp \<noteq> Some Dir"
  proof
    assume "map_of F tp = Some Dir"
    from depth_map_of [OF this] "0.prems"(6) show False by simp
  qed
  then have sc: "scandir F tp = None" using ndt by (rule scandir_None)
  note lf = leaf_filter [OF "0.prems"(1) nd, of source replica]
  show ?case by (rule exI [of _ "[]"]) (simp add: sc lf)
next
  case (Suc n)
  note wf = Suc.prems(1) and cl = Suc.prems(2) and lf = Suc.prems(3) and pre = Suc.prems(4)
    and ptp = Suc.prems(5) and fuel = Suc.prems(6)
  have ndt: "\<not> dotted tp" using ptp by (rule plain_not_dotted)
  let ?B = "reverse_body source replica lp"
  show ?case
  proof (cases "map_of F tp = Some Dir")
    case False
    then have sc: "scandir F tp = None" using ndt by (rule scandir_None)
    note lff = leaf_filter [OF wf False, of source replica]
    show ?thesis by (rule exI [of _ "[]"]) (simp add: sc lff)
  next
    case True
    from scandir_Some [OF True ndt] obtain ds ns where sc: "scandir F tp = Some (ds, ns)" by blast
    have dist: "distinct (map fst F)" using wf by (simp add: wf_fs_iff)
    note sf = scandir_facts [OF dist sc ndt]
    have nm: "\<And>d. d \<in> set ds \<Longrightarrow> d \<noteq> ''.''"
    proof -
      fix d assume "d \<in> set ds"
      then have "map_of F (tp @ [d]) = Some Dir" by (simp add: sf(2))
      from wf_plain [OF wf this] show "d \<noteq> ''.''" by simp
    qed
    have fl: "depth F \<le> n + length tp" using fuel by simp
    let ?F1 = "filter (\<lambda>(q, e). \<not> (\<exists>d \<in> set ds. doomed F source replica (tp @ [d]) q)) F"
    from reverse_walk_dirs_step [OF nds nl pre ptp Suc.IH wf cl lf sf(4) nm fl, where msgs' = msgs]
    obtain new1 where
      w1: "os_walk_dirs n False ?B tp ds (advance lp s F msgs) = Some (None, advance lp s ?F1 (msgs @ new1))"
      and d1: "distinct new1"
      and s1: "set new1 = (\<Union>d \<in> set ds. removals F source replica (tp @ [d]))" by blast
    have F1eq: "?F1 = filter (\<lambda>(q, e). \<not> (\<exists>t \<in> (\<lambda>d. tp @ [d]) ` set ds. doomed F source replica t q)) F"
      by simp
    have T: "\<And>t. t \<in> (\<lambda>d. tp @ [d]) ` set ds \<Longrightarrow> prefix replica t"
      using pre by (auto intro: prefix_prefix)
    have orp: "orphan ?F1 source replica (tp @ [x]) = orphan F source replica (tp @ [x])" for x
    proof -
      have sp: "strict_prefix replica (tp @ [x])"
        using pre by (auto simp: strict_prefix_def prefix_def)
      show ?thesis unfolding F1eq
      proof (rule orphan_doomed_filter [OF cl _ sp])
        fix t assume "t \<in> (\<lambda>d. tp @ [d]) ` set ds" then show "prefix replica t" by (rule T)
      qed
    qed
    have m1: "map_of ?F1 (tp @ [x]) = map_of F (tp @ [x])" for x
    proof -
      have "\<not> doomed F source replica (tp @ [d]) (tp @ [x])" for d
        by (auto simp: doomed_def strict_prefix_def prefix_def)
      then show ?thesis by (simp add: map_of_filter_key)
    qed
    have wf1: "wf_fs ?F1" unfolding F1eq by (rule doomed_set_wf [OF wf T])
    have cl1: "clear ?F1 source replica" by (rule clear_filter [OF cl])
    have l1: "map_of ?F1 lp = Some (File c0 m0)"
    proof -
      have "\<not> doomed F source replica (tp @ [d]) lp" for d
      proof -
        have "prefix replica (tp @ [d])" by (rule prefix_prefix [OF pre])
        from doomed_prefix [OF this] nl show ?thesis by blast
      qed
      then show ?thesis using lf by (simp add: map_of_filter_key)
    qed
    obtain rel where rel: "tp = replica @ rel" using pre by (auto simp: prefix_def)
    have fl1: "\<And>f. f \<in> set ns \<Longrightarrow> \<exists>c m. map_of ?F1 (replica @ rel @ [f]) = Some (File c m)"
      using m1 sf(3) unfolding rel by simp
    have dr1: "\<And>d. d \<in> set ds \<Longrightarrow> map_of ?F1 (replica @ rel @ [d]) = Some Dir"
      using m1 sf(2) unfolding rel by simp
    let ?files = "map (\<lambda>f. RemovedFile (tp @ [f])) (filter (\<lambda>f. orphan F source replica (tp @ [f])) ns)"
    let ?folders = "map (\<lambda>d. RemovedFolder (tp @ [d])) (filter (\<lambda>d. orphan F source replica (tp @ [d])) ds)"
    have ptp': "plain (replica @ rel)" using ptp rel by simp
    have body: "?B (tp, ds, ns) (advance lp s ?F1 (msgs @ new1)) =
       (None, advance lp s
          (filter (\<lambda>(q, e).
              \<not> (\<exists>f \<in> set ns. q = tp @ [f] \<and> orphan F source replica (tp @ [f])) \<and>
              \<not> (\<exists>d \<in> set ds. prefix (tp @ [d]) q \<and> orphan F source replica (tp @ [d]))) ?F1)
          ((msgs @ new1) @ ?files @ ?folders))"
      using reverse_body_closed [OF cl1 nds wf1 ptp' sf(5) sf(4) fl1 dr1 l1 nl, of s "msgs @ new1"]
      using orp unfolding rel by simp
    have feq: "filter (\<lambda>(q, e).
              \<not> (\<exists>f \<in> set ns. q = tp @ [f] \<and> orphan F source replica (tp @ [f])) \<and>
              \<not> (\<exists>d \<in> set ds. prefix (tp @ [d]) q \<and> orphan F source replica (tp @ [d]))) ?F1
         = filter (\<lambda>(q, e). \<not> doomed F source replica tp q) F"
      unfolding filter_filter_key
    proof (rule filter_key_cong)
      fix q e assume "(q, e) \<in> set F"
      then have "map_of F q = Some e" by (rule map_of_is_SomeI [OF dist])
      from doomed_split [OF wf pre sf(2) sf(3) this, of source]
      show "(\<not> (\<exists>d \<in> set ds. doomed F source replica (tp @ [d]) q) \<and>
             \<not> (\<exists>f \<in> set ns. q = tp @ [f] \<and> orphan F source replica (tp @ [f])) \<and>
             \<not> (\<exists>d \<in> set ds. prefix (tp @ [d]) q \<and> orphan F source replica (tp @ [d])))
          = (\<not> doomed F source replica tp q)" by blast
    qed
    have run: "os_walk (Suc n) False ?B tp (advance lp s F msgs) =
        Some (None, advance lp s (filter (\<lambda>(q, e). \<not> doomed F source replica tp q) F)
                (msgs @ (new1 @ ?files @ ?folders)))"
      using w1 body unfolding feq by (simp add: sc)
    have sset: "set (new1 @ ?files @ ?folders) = removals F source replica tp"
      unfolding removals_split [OF wf pre sf(2) sf(3), of source] using s1 by auto
    have inj1: "inj (\<lambda>f. RemovedFile (tp @ [f]))" by (simp add: inj_def)
    have inj2: "inj (\<lambda>d. RemovedFolder (tp @ [d]))" by (simp add: inj_def)
    have "distinct ?files" by (rule distinct_map_filter_inj [OF sf(5) inj1])
    moreover have "distinct ?folders" by (rule distinct_map_filter_inj [OF sf(4) inj2])
    moreover have "set ?files \<inter> set ?folders = {}" by auto
    moreover have "set new1 \<inter> (set ?files \<union> set ?folders) = {}"
      unfolding s1 using removals_not_child [of tp _ F source replica] by auto
    ultimately have "distinct (new1 @ ?files @ ?folders)" using d1 by auto
    with run sset show ?thesis by blast
  qed
qed

lemma source_file_orphans:
  assumes wf: "wf_fs F" and src: "map_of F source \<noteq> Some Dir"
  shows "doomed F source replica replica q \<longleftrightarrow> strict_prefix replica q"
proof
  assume "doomed F source replica replica q" then show "strict_prefix replica q"
    by (simp add: doomed_def)
next
  assume sp: "strict_prefix replica q"
  then obtain x r where q: "q = replica @ x # r" using strict_prefix_split by blast
  have "map_of F (source @ x # r) = None"
  proof (rule ccontr)
    assume "map_of F (source @ x # r) \<noteq> None"
    then obtain e where "map_of F (source @ x # r) = Some e" by blast
    from wf_ancestor [OF wf this] src show False by simp
  qed
  then have "orphan F source replica q"
    unfolding q by (simp add: orphan_def counterpart_append)
  with sp show "doomed F source replica replica q" by (simp add: doomed_def)
qed

lemma os_makedirs_ok:
  "wf_fs F \<Longrightarrow> plain p \<Longrightarrow> (\<And>q c m. prefix q p \<Longrightarrow> map_of F q \<noteq> Some (File c m)) \<Longrightarrow>
   map_of F p = None \<Longrightarrow> \<exists>F'. os_makedirs F p = Inr F'"
proof (induction F p rule: os_makedirs.induct)
  case (1 fs p)
  note wf = "1.prems"(1) and pl = "1.prems"(2) and nf = "1.prems"(3) and np = "1.prems"(4)
  have ne: "p \<noteq> []" using wf np by (auto simp: wf_fs_iff)
  have ndp: "\<not> dotted p" using pl by (rule plain_not_dotted)
  have plb: "plain (butlast p)" using pl by (rule plain_butlast)
  have ndb: "\<not> dotted (butlast p)" using plb by (rule plain_not_dotted)
  have pb: "prefix (butlast p) p" by (rule prefixeq_butlast)
  show ?case
  proof (cases "map_of fs (butlast p)")
    case None
    then have c: "p \<noteq> [] \<and> \<not> os_path_exists fs (butlast p)"
      using ne ndb by (simp add: os_path_exists_plain)
    have nf': "\<And>q c m. prefix q (butlast p) \<Longrightarrow> map_of fs q \<noteq> Some (File c m)"
      using nf pb by (meson prefix_order.trans)
    from "1.IH" [OF c wf plb nf' None] obtain F1 where F1: "os_makedirs fs (butlast p) = Inr F1"
      by blast
    from os_makedirs_spec [OF wf plb F1] have wf1: "wf_fs F1"
      and m1: "\<And>q. map_of F1 q =
                  (if map_of fs q = None \<and> prefix q (butlast p) then Some Dir else map_of fs q)"
      by auto
    have npb: "\<not> prefix p (butlast p)"
      using ne by (metis append_butlast_last_id prefix_order.dual_order.antisym prefix_snoc
          self_append_conv snoc_eq_iff_butlast prefixI)
    have "map_of F1 p = None" using m1 [of p] np npb by simp
    moreover have "map_of F1 (butlast p) = Some Dir" using m1 [of "butlast p"] None by simp
    ultimately have "os_mkdir F1 p = Inr (F1 @ [(p, Dir)])" using ndp by (intro os_mkdir_ok)
    moreover have "os_makedirs fs p =
      (case os_makedirs fs (butlast p) of
         Inl e \<Rightarrow> (if e = FileExistsError then os_mkdir fs p else Inl e)
       | Inr fs1 \<Rightarrow> os_mkdir fs1 p)"
      by (subst os_makedirs.simps) (simp only: c ndp if_True if_False simp_thms)
    ultimately show ?thesis using F1 by simp
  next
    case (Some e)
    with nf [OF pb] have d: "map_of fs (butlast p) = Some Dir" by (cases e) auto
    have "os_makedirs fs p = os_mkdir fs p" using d pl by (intro os_makedirs_parent) simp_all
    with os_mkdir_ok [OF np d ndp] show ?thesis by simp
  qed
qed

lemma wf_logged: "wf_fs F \<Longrightarrow> wf_fs (logged lp msgs now F)"
  unfolding wf_fs_iff by (simp only: map_fst_logged map_of_logged_None map_of_logged_Dir) simp

lemma depth_logged [simp]: "depth (logged lp msgs now F) = depth F"
  by (induction F) (auto simp: logged_def)

lemma for_each_log:
  assumes "distinct (map fst G)" "map_of G lp = Some (File c m)"
  shows "for_each (log_message lp) msgs (advance lp s G pre) = (None, advance lp s G (pre @ msgs))"
proof (induction msgs arbitrary: pre)
  case Nil
  show ?case by simp
next
  case (Cons x msgs)
  from Cons [of "pre @ [x]"] show ?case by (simp add: log_message_advance [OF assms])
qed

lemma logged_write_file:
  assumes "distinct (map fst F)" "map_of F lp = None \<or> (\<exists>c' m'. map_of F lp = Some (File c' m'))"
    "msgs \<noteq> []"
  shows "logged lp msgs now (write_file F lp (File c m)) = write_file F lp (File (c @ log_text msgs) now)"
  using assms(1,2)
proof (induction F)
  case Nil
  then show ?case using assms(3) by (simp add: logged_def)
next
  case (Cons x F)
  obtain q e where x: "x = (q, e)" by (cases x)
  show ?case
  proof (cases "q = lp")
    case True
    with Cons.prems(1) x have "lp \<notin> fst ` set F" by auto
    then have n: "\<And>b. (lp, b) \<notin> set F" by force
    have "map (\<lambda>(q, e). (q, if q = lp then (case e of File c m \<Rightarrow> File (c @ log_text msgs) now | Dir \<Rightarrow> Dir) else e)) F = F"
      using n by (auto intro!: map_idI)
    with True x assms(3) show ?thesis by (simp add: logged_def)
  next
    case False
    from Cons.prems(2) False x have
      "map_of F lp = None \<or> (\<exists>c' m'. map_of F lp = Some (File c' m'))" by simp
    with Cons.IH Cons.prems(1) have
      "logged lp msgs now (write_file F lp (File c m)) = write_file F lp (File (c @ log_text msgs) now)"
      by simp
    with False x assms(3) show ?thesis by (simp add: logged_def)
  qed
qed

text \<open>The first line written to a log file that can be written.\<close>

lemma log_message_first:
  assumes "map_of (files s) lp \<noteq> Some Dir" "map_of (files s) (butlast lp) = Some Dir"
  shows "log_message lp msg s =
     (None, s\<lparr>files := write_file (files s) lp
                 (File ((case map_of (files s) lp of Some (File c m) \<Rightarrow> c | _ \<Rightarrow> []) @ log_text [msg])
                    (clock s)),
              console := console s @ [msg]\<rparr>)"
  using assms
  by (auto simp: log_message_def seq_def print_def fs_op_def open_append_def log_text_def
      split: option.splits entry.splits)

lemma start_up_lines:
  assumes wf: "wf_fs (files s)" and pl: "plain lp"
    and nd: "map_of (files s) lp \<noteq> Some Dir" and par: "map_of (files s) (butlast lp) = Some Dir"
    and ne: "msgs \<noteq> []"
  shows "for_each (log_message lp) msgs s =
     (None, s\<lparr>files := write_file (files s) lp
                 (File ((case map_of (files s) lp of Some (File c m) \<Rightarrow> c | _ \<Rightarrow> []) @ log_text msgs)
                    (clock s)),
              console := console s @ msgs\<rparr>)"
proof -
  let ?old = "case map_of (files s) lp of Some (File c m) \<Rightarrow> c | _ \<Rightarrow> []"
  obtain x xs where msgs: "msgs = x # xs" using ne by (cases msgs) auto
  let ?F1 = "write_file (files s) lp (File (?old @ log_text [x]) (clock s))"
  let ?s1 = "s\<lparr>files := ?F1, console := console s @ [x]\<rparr>"
  have d: "distinct (map fst (files s))" using wf by (rule wf_distinct)
  have d1: "distinct (map fst ?F1)" by (rule distinct_write_file [OF d])
  have l1: "map_of ?F1 lp = Some (File (?old @ log_text [x]) (clock s))"
    by (simp add: map_of_write_file)
  have one: "log_message lp x s = (None, ?s1)" by (rule log_message_first [OF nd par])
  have s1: "?s1 = advance lp ?s1 ?F1 []" by (simp add: advance_def)
  have "for_each (log_message lp) xs ?s1 = (None, advance lp ?s1 ?F1 ([] @ xs))"
    by (subst s1) (rule for_each_log [OF d1 l1])
  moreover have "advance lp ?s1 ?F1 ([] @ xs) =
      s\<lparr>files := write_file (files s) lp (File (?old @ log_text msgs) (clock s)),
        console := console s @ msgs\<rparr>"
  proof (cases "xs = []")
    case True
    then show ?thesis by (simp add: advance_def msgs)
  next
    case False
    have k: "map_of (files s) lp = None \<or> (\<exists>c' m'. map_of (files s) lp = Some (File c' m'))"
      using nd by (cases "map_of (files s) lp") (auto split: entry.splits, metis entry.exhaust)
    from logged_write_file [OF d k False, of "clock s" "?old @ log_text [x]" "clock s"]
    show ?thesis by (simp add: advance_def msgs log_text_def)
  qed
  ultimately show ?thesis using one by (simp add: msgs)
qed

lemma ensure_replica_closed:
  assumes wf0: "wf_fs F0" and plr: "plain replica"
    and l0: "map_of F0 lp = Some (File c1 t1)" and nl: "\<not> prefix lp replica"
    and anc: "\<And>q c' m'. strict_prefix q replica \<Longrightarrow> q \<noteq> lp \<Longrightarrow> map_of F0 q \<noteq> Some (File c' m')"
  shows "\<exists>F2. ensure_replica replica lp (advance lp s F0 msgs) =
            (None, advance lp s F2
               (msgs @ (if map_of F0 replica = None then [CreatedReplica replica] else [])))
          \<and> wf_fs F2
          \<and> (\<forall>q. map_of F2 q =
                (if map_of F0 q = None \<and> prefix q replica then Some Dir else map_of F0 q))
          \<and> depth F2 \<le> max (depth F0) (length replica)"
proof (cases "map_of F0 replica = None")
  case False
  have ndr: "\<not> dotted replica" using plr by (rule plain_not_dotted)
  have ex: "os_path_exists (files (advance lp s F0 msgs)) replica"
    using False by (simp add: os_path_exists_plain [OF ndr])
  have "map_of F0 q \<noteq> None" if "prefix q replica" for q
  proof -
    from that obtain r where r: "replica = q @ r" by (auto simp: prefix_def)
    from False obtain e where e: "map_of F0 (q @ r) = Some e" unfolding r by blast
    show ?thesis
    proof (cases "r = []")
      case True
      with e show ?thesis by simp
    next
      case False
      from wf_ancestor [OF wf0 e False] show ?thesis by simp
    qed
  qed
  then have "\<forall>q. map_of F0 q =
                (if map_of F0 q = None \<and> prefix q replica then Some Dir else map_of F0 q)" by auto
  with ex wf0 show ?thesis
    by (intro exI [of _ F0]) (simp add: ensure_replica_def False)
next
  case True
  have ndr: "\<not> dotted replica" using plr by (rule plain_not_dotted)
  have nex: "\<not> os_path_exists (files (advance lp s F0 msgs)) replica"
    using True by (simp add: os_path_exists_plain [OF ndr])
  have nf: "map_of F0 q \<noteq> Some (File c' m')" if "prefix q replica" for q c' m'
  proof (cases "q = replica")
    case True
    with \<open>map_of F0 replica = None\<close> show ?thesis by simp
  next
    case False
    with that have sp: "strict_prefix q replica" by (simp add: strict_prefix_def)
    have "q \<noteq> lp" using that nl by auto
    from anc [OF sp this] show ?thesis .
  qed
  from os_makedirs_ok [OF wf0 plr nf True] obtain F2 where mk: "os_makedirs F0 replica = Inr F2"
    by blast
  from os_makedirs_spec [OF wf0 plr mk] have wf2: "wf_fs F2"
    and m2: "\<And>q. map_of F2 q =
                (if map_of F0 q = None \<and> prefix q replica then Some Dir else map_of F0 q)"
    and d2: "depth F2 \<le> max (depth F0) (length replica)" by auto
  have op: "fs_op (\<lambda>fs. os_makedirs fs replica) (advance lp s F0 msgs) = (None, advance lp s F2 msgs)"
    using fs_op_advance [where f = "\<lambda>fs. os_makedirs fs replica" and lp = lp and msgs = msgs
        and s = s and F = F0, OF os_makedirs_logged]
    by (simp add: mk)
  have l2: "map_of F2 lp = Some (File c1 t1)" using m2 [of lp] l0 by simp
  have lg: "log_message lp (CreatedReplica replica) (advance lp s F2 msgs) =
      (None, advance lp s F2 (msgs @ [CreatedReplica replica]))"
    by (rule log_message_advance [OF wf_distinct [OF wf2] l2])
  have "ensure_replica replica lp (advance lp s F0 msgs) =
      (None, advance lp s F2 (msgs @ [CreatedReplica replica]))"
    unfolding ensure_replica_def seq_def using nex op lg by simp
  with wf2 m2 d2 True show ?thesis by (intro exI [of _ F2]) simp
qed


section \<open>The fingerprint\<close>

lemma read_chunks_concat: "0 < k \<Longrightarrow> concat (read_chunks k bs) = bs"
proof (induction k bs rule: read_chunks.induct)
  case (1 k bs)
  show ?case
  proof (cases "take k bs = []")
    case True
    with "1.prems" have "bs = []" by (cases bs) auto
    then show ?thesis by (subst read_chunks.simps) simp
  next
    case False
    with "1.IH" "1.prems" have "concat (read_chunks k (drop k bs)) = drop k bs" by simp
    with False show ?thesis by (subst read_chunks.simps) simp
  qed
qed

text \<open>
  C9. The fingerprint of a file is a function of its bytes alone: two files with the same
  bytes, at any paths of any two filesystems (so also at two moments) and whatever their
  modification times, have the same fingerprint, the hash of those bytes.
\<close>

theorem calculate_hash_deterministic:
  assumes "map_of fs1 p1 = Some (File c m1)" and "map_of fs2 p2 = Some (File c m2)"
  shows "calculate_hash h fs1 p1 = calculate_hash h fs2 p2 \<and>
         calculate_hash h fs1 p1 = Inr (hash_bytes h c)"
  using assms by (simp add: calculate_hash_def)

theorem calculate_hash_deterministic_witness:
  "calculate_hash plain_md5 scenario_fs [''s'', ''a.txt'']
     = calculate_hash plain_md5 [([], Dir), ([''x''], File ''hello'' 7)] [''x'']
   \<and> calculate_hash plain_md5 scenario_fs [''s'', ''a.txt''] = Inr (hash_bytes plain_md5 ''hello'')"
proof -
  have h1: "map_of scenario_fs [''s'', ''a.txt''] = Some (File ''hello'' 1)"
    by (simp add: scenario_fs_def)
  have h2: "map_of [([], Dir), ([''x''], File ''hello'' 7)] [''x''] = Some (File ''hello'' 7)"
    by simp
  show ?thesis by (rule calculate_hash_deterministic [OF h1 h2])
qed

section \<open>Start-up\<close>

text \<open>
  C8. When nothing is at the source path at start-up, \<^verbatim>\<open>main\<close> prints the error on the
  console and returns: however many iterations are allowed, the loop is not entered, the
  filesystem is as it was (no pass ran, and nothing is written to the log file, which is
  one of its files).
\<close>

theorem main_source_missing:
  assumes "\<not> os_path_exists (files s) source"
  shows "main k n h source replica interval log_path s
           = Some (Returned, s\<lparr>console := console s @ [SourceMissing source]\<rparr>)"
  using assms by (simp add: main_def print_def)

theorem main_source_missing_witness:
  "\<not> os_path_exists (files scenario) [''nowhere''] \<and>
   main 3 5 plain_md5 [''nowhere''] [''r''] 10 [''log''] scenario
     = Some (Returned, scenario\<lparr>console := console scenario @ [SourceMissing [''nowhere'']]\<rparr>)"
proof -
  have h: "\<not> os_path_exists (files scenario) [''nowhere'']"
    by (simp add: os_path_exists_def dotted_def scenario_def scenario_fs_def)
  show ?thesis using h main_source_missing [OF h, of 3 5 plain_md5 "[''r'']" 10 "[''log'']"] by simp
qed

section \<open>Errors during a pass\<close>

text \<open>
  C6, as stated, fails: \<^verbatim>\<open>main\<close> calls \<^verbatim>\<open>synchronize_folders\<close> inside \<^verbatim>\<open>while True\<close>
  with no \<^verbatim>\<open>try\<close>, so an exception of a pass leaves the loop. In the first example the
  log file is \<^verbatim>\<open>r/d/log\<close> and the source has no \<^verbatim>\<open>d\<close>: the reverse walk removes the
  folder \<^verbatim>\<open>r/d\<close>, the log line for that removal can no longer be written
  (\<^verbatim>\<open>FileNotFoundError\<close>), and with two iterations allowed the process has ended with
  that exception after the first. In the second the source file \<^verbatim>\<open>s/f\<close> meets the
  replica folder \<^verbatim>\<open>r/f\<close>, and reading the folder for its hash raises
  \<^verbatim>\<open>IsADirectoryError\<close>. In both no second pass ran.
\<close>

theorem pass_error_ends_loop_counterexample:
  "main_loop 2 5 plain_md5 [''s''] [''r''] 10 [''r'', ''d'', ''log''] log_inside =
     Some (Raised FileNotFoundError,
           \<lparr>files = [([], Dir), ([''s''], Dir), ([''r''], Dir)],
            console = [RemovedFolder [''r'', ''d'']], clock = 100\<rparr>) \<and>
   main_loop 2 5 plain_md5 [''s''] [''r''] 10 [''log''] clash = Some (Raised IsADirectoryError, clash)"
  by code_simp

text \<open>
  C6, amended. An exception raised by the statements for one entry during a pass
  propagates and aborts the pass: \<^verbatim>\<open>synchronize_folders\<close> ends with that exception in the
  state the statement left, nothing after it runs. It also leaves the loop of \<^verbatim>\<open>main\<close>:
  however many further iterations are allowed, the process has ended with the exception
  in that state, and no later pass is attempted.
\<close>

theorem pass_error_ends_loop:
  assumes "raised_in_pass n h source replica log_path s e s'"
  shows "synchronize_folders n h source replica log_path s = Some (Some e, s') \<and>
         main_loop (Suc k) n h source replica interval log_path s = Some (Raised e, s')"
proof -
  have "synchronize_folders n h source replica log_path s = Some (Some e, s')"
    using assms
  proof cases
    case at_replica
    then show ?thesis by (simp add: synchronize_folders_def)
  next
    case (at_folder s1 root dirs fnames s2)
    have "forward_body h source replica log_path (root, dirs, fnames) s2 = (Some e, s')"
      using at_folder(3) by (simp add: forward_body_def Let_def seq_raise)
    from walk_raise(1) [OF at_folder(2) this] at_folder(1) show ?thesis
      by (simp add: synchronize_folders_def forward_pass_def)
  next
    case (at_file s1 root dirs fnames s2 destination_path s3 pre x post s4)
    have "for_each (sync_file h log_path root destination_path) fnames s3 = (Some e, s')"
      unfolding at_file(5) by (rule for_each_raise [OF at_file(6) at_file(7)])
    then have "forward_body h source replica log_path (root, dirs, fnames) s2 = (Some e, s')"
      using at_file(3,4) by (simp add: forward_body_def Let_def seq_next)
    from walk_raise(1) [OF at_file(2) this] at_file(1) show ?thesis
      by (simp add: synchronize_folders_def forward_pass_def)
  next
    case (at_replica_file s1 s2 root dirs fnames s3 source_path pre x post s4)
    have "for_each (prune_file log_path root source_path) fnames s3 = (Some e, s')"
      unfolding at_replica_file(5) by (rule for_each_raise [OF at_replica_file(6) at_replica_file(7)])
    then have "reverse_body source replica log_path (root, dirs, fnames) s3 = (Some e, s')"
      using at_replica_file(4) by (simp add: reverse_body_def Let_def seq_raise)
    from walk_raise(1) [OF at_replica_file(3) this] at_replica_file(1,2) show ?thesis
      by (simp add: synchronize_folders_def reverse_pass_def)
  next
    case (at_replica_folder s1 s2 root dirs fnames s3 source_path s4 pre x post s5)
    have "for_each (prune_folder log_path root source_path) dirs s4 = (Some e, s')"
      unfolding at_replica_folder(6)
      by (rule for_each_raise [OF at_replica_folder(7) at_replica_folder(8)])
    then have "reverse_body source replica log_path (root, dirs, fnames) s3 = (Some e, s')"
      using at_replica_folder(4,5) by (simp add: reverse_body_def Let_def seq_next)
    from walk_raise(1) [OF at_replica_folder(3) this] at_replica_folder(1,2) show ?thesis
      by (simp add: synchronize_folders_def reverse_pass_def)
  qed
  then show ?thesis by simp
qed

theorem pass_error_ends_loop_witness:
  "raised_in_pass (Suc 4) plain_md5 [''s''] [''r''] [''r'', ''d'', ''log''] log_inside FileNotFoundError
     \<lparr>files = [([], Dir), ([''s''], Dir), ([''r''], Dir)],
      console = [RemovedFolder [''r'', ''d'']], clock = 100\<rparr> \<and>
   synchronize_folders (Suc 4) plain_md5 [''s''] [''r''] [''r'', ''d'', ''log''] log_inside =
     Some (Some FileNotFoundError,
           \<lparr>files = [([], Dir), ([''s''], Dir), ([''r''], Dir)],
            console = [RemovedFolder [''r'', ''d'']], clock = 100\<rparr>) \<and>
   main_loop (Suc 7) (Suc 4) plain_md5 [''s''] [''r''] 10 [''r'', ''d'', ''log''] log_inside =
     Some (Raised FileNotFoundError,
           \<lparr>files = [([], Dir), ([''s''], Dir), ([''r''], Dir)],
            console = [RemovedFolder [''r'', ''d'']], clock = 100\<rparr>)"
proof -
  let ?lp = "[''r'', ''d'', ''log'']"
  let ?B = "reverse_body [''s''] [''r''] ?lp"
  have v: "visits (Suc 4) False ?B [''r''] log_inside ([''r''], [''d''], []) log_inside"
  proof (rule bottom_up_here)
    show "scandir (files log_inside) [''r''] = Some ([''d''], [])" by code_simp
    show "os_walk_dirs 4 False ?B [''r''] [''d''] log_inside = Some (None, log_inside)" by code_simp
  qed
  have h: "raised_in_pass (Suc 4) plain_md5 [''s''] [''r''] ?lp log_inside FileNotFoundError
     \<lparr>files = [([], Dir), ([''s''], Dir), ([''r''], Dir)],
      console = [RemovedFolder [''r'', ''d'']], clock = 100\<rparr>"
  proof (rule at_replica_folder [where ?before = "[]" and ?after = "[]" and folder = "''d''",
        OF _ _ v refl])
    show "ensure_replica [''r''] ?lp log_inside = (None, log_inside)" by code_simp
    show "forward_pass (Suc 4) plain_md5 [''s''] [''r''] ?lp log_inside = Some (None, log_inside)"
      by code_simp
    show "for_each (prune_file ?lp [''r''] (os_path_join [''s''] (os_path_relpath [''r''] [''r'']))) []
            log_inside = (None, log_inside)" by simp
    show "[''d''] = [] @ ''d'' # []" by simp
    show "for_each (prune_folder ?lp [''r''] (os_path_join [''s''] (os_path_relpath [''r''] [''r'']))) []
            log_inside = (None, log_inside)" by simp
    show "prune_folder ?lp [''r''] (os_path_join [''s''] (os_path_relpath [''r''] [''r''])) ''d''
            log_inside =
          (Some FileNotFoundError,
           \<lparr>files = [([], Dir), ([''s''], Dir), ([''r''], Dir)],
            console = [RemovedFolder [''r'', ''d'']], clock = 100\<rparr>)" by code_simp
  qed
  from h pass_error_ends_loop [OF h, of 7 10] show ?thesis by blast
qed


section \<open>A source that is a regular file\<close>




end
